theory Spec2Isabelle
  imports Main "HOL-Library.Word" "HOL-Library.Sublist"
begin

section \<open>Strings and the regular expressions of the source\<close>

text \<open>
  JavaScript strings are modelled as \<open>string\<close> (lists of 8-bit characters), a \<open>Buffer\<close> as
  a list of bytes. The regular expressions of \<^verbatim>\<open>scraping.ts\<close> and \<^verbatim>\<open>utils.ts\<close> only
  quantify single character classes, so a small backtracking matcher in continuation
  style covers them: alternatives are tried in the order written and quantifiers are
  greedy, as in the ECMAScript matcher.
\<close>

type_synonym bytes = "8 word list"

definition lower :: "char \<Rightarrow> char" where
  "lower c = (case map_of (zip ''ABCDEFGHIJKLMNOPQRSTUVWXYZ'' ''abcdefghijklmnopqrstuvwxyz'') c of
                None \<Rightarrow> c | Some d \<Rightarrow> d)"

definition is_digit :: "char \<Rightarrow> bool" where
  "is_digit c = (c \<in> set ''0123456789'')"

definition is_alnum :: "char \<Rightarrow> bool" where
  "is_alnum c = (c \<in> set ''abcdefghijklmnopqrstuvwxyzABCDEFGHIJKLMNOPQRSTUVWXYZ0123456789'')"

text \<open>White space of \<^verbatim>\<open>\s\<close> and of \<^verbatim>\<open>String.prototype.trim\<close>, within 8-bit characters.\<close>

definition is_space :: "char \<Rightarrow> bool" where
  "is_space c = (c \<in> set [CHR 0x09, CHR 0x0A, CHR 0x0B, CHR 0x0C, CHR 0x0D, CHR 0x20, CHR 0xA0])"

text \<open>The dot of a regular expression without the \<^verbatim>\<open>s\<close> flag: anything but a line terminator.\<close>

definition dot :: "char \<Rightarrow> bool" where
  "dot c = (c \<noteq> CHR 0x0A \<and> c \<noteq> CHR 0x0D)"

datatype rx =
    Eps
  | Cls "char \<Rightarrow> bool"
  | Rep nat "nat option" "char \<Rightarrow> bool"
  | Seq rx rx
  | Alt rx rx
  | Eol

text \<open>\<open>greedy p lo hi k s\<close>: between \<open>lo\<close> and \<open>hi\<close> characters of class \<open>p\<close>, longest first,
  then the continuation \<open>k\<close> on what is left.\<close>

fun greedy :: "(char \<Rightarrow> bool) \<Rightarrow> nat \<Rightarrow> nat option \<Rightarrow> (string \<Rightarrow> 'a option) \<Rightarrow> string \<Rightarrow> 'a option" where
  "greedy p lo hi k [] = (if lo = 0 then k [] else None)"
| "greedy p lo hi k (c # cs) =
     (if hi \<noteq> Some 0 \<and> p c then
        (case greedy p (lo - 1) (map_option (\<lambda>h. h - 1) hi) k cs of
           Some r \<Rightarrow> Some r
         | None \<Rightarrow> if lo = 0 then k (c # cs) else None)
      else if lo = 0 then k (c # cs) else None)"

fun rx_m :: "rx \<Rightarrow> (string \<Rightarrow> 'a option) \<Rightarrow> string \<Rightarrow> 'a option" where
  "rx_m Eps k s = k s"
| "rx_m (Cls p) k s = (case s of [] \<Rightarrow> None | c # cs \<Rightarrow> if p c then k cs else None)"
| "rx_m (Rep lo hi p) k s = greedy p lo hi k s"
| "rx_m (Seq a b) k s = rx_m a (rx_m b k) s"
| "rx_m (Alt a b) k s = (case rx_m a k s of Some r \<Rightarrow> Some r | None \<Rightarrow> rx_m b k s)"
| "rx_m Eol k s = (if s = [] then k s else None)"

text \<open>A literal of a pattern without the \<^verbatim>\<open>i\<close> flag.\<close>

fun lit :: "string \<Rightarrow> rx" where
  "lit [] = Eps"
| "lit (c # cs) = Seq (Cls (\<lambda>d. d = c)) (lit cs)"

text \<open>
  A literal of a pattern with the \<^verbatim>\<open>i\<close> flag, given in lower and in upper case: an ASCII
  letter of the pattern matches exactly its two cases (without the \<^verbatim>\<open>u\<close> flag no
  character beyond ASCII is folded onto an ASCII one).
\<close>

fun liti :: "string \<Rightarrow> string \<Rightarrow> rx" where
  "liti (l # ls) (u # us) = Seq (Cls (\<lambda>d. d = l \<or> d = u)) (liti ls us)"
| "liti ls us = Eps"

text \<open>The first match at or after the start of \<open>s\<close>: what precedes it and what follows it.\<close>

fun find_span :: "rx \<Rightarrow> string \<Rightarrow> (string \<times> string) option" where
  "find_span r [] = map_option (\<lambda>v. ([], v)) (rx_m r Some [])"
| "find_span r (c # cs) =
     (case rx_m r Some (c # cs) of
        Some v \<Rightarrow> Some ([], v)
      | None \<Rightarrow> map_option (\<lambda>(p, v). (c # p, v)) (find_span r cs))"

text \<open>\<^verbatim>\<open>RegExp.prototype.test\<close> of a regular expression without the \<^verbatim>\<open>g\<close> flag.\<close>

definition rx_test :: "rx \<Rightarrow> string \<Rightarrow> bool" where
  "rx_test r s = (find_span r s \<noteq> None)"

text \<open>
  \<^verbatim>\<open>RegExp.prototype.test\<close> of a regular expression with the \<^verbatim>\<open>g\<close> flag. The object keeps
  \<^verbatim>\<open>lastIndex\<close>: the search starts there, a match stores the index of its end, a failure
  stores 0. The result is the answer and the new \<^verbatim>\<open>lastIndex\<close>.
\<close>

definition rx_test_g :: "rx \<Rightarrow> nat \<Rightarrow> string \<Rightarrow> bool \<times> nat" where
  "rx_test_g r li s =
     (if li > length s then (False, 0)
      else case find_span r (drop li s) of
             None \<Rightarrow> (False, 0)
           | Some (p, v) \<Rightarrow> (True, length s - length v))"

text \<open>\<^verbatim>\<open>s.replace(r, rep)\<close> without the \<^verbatim>\<open>g\<close> flag: the first match only.\<close>

definition replace_first :: "rx \<Rightarrow> string \<Rightarrow> string \<Rightarrow> string" where
  "replace_first r rep s = (case find_span r s of None \<Rightarrow> s | Some (p, v) \<Rightarrow> p @ rep @ v)"

text \<open>\<^verbatim>\<open>s.replace(r, rep)\<close> with the \<^verbatim>\<open>g\<close> flag (and \<^verbatim>\<open>replaceAll\<close>): every match, left to
  right, the search resuming after each match.\<close>

function replace_all :: "rx \<Rightarrow> string \<Rightarrow> string \<Rightarrow> string" where
  "replace_all r rep [] = (case rx_m r Some [] of Some v \<Rightarrow> rep | None \<Rightarrow> [])"
| "replace_all r rep (c # cs) =
     (case rx_m r Some (c # cs) of
        None \<Rightarrow> c # replace_all r rep cs
      | Some v \<Rightarrow> if length v < length (c # cs) then rep @ replace_all r rep v
                  else rep @ c # replace_all r rep cs)"
  by pat_completeness auto
termination
  by (relation "measure (\<lambda>(r, rep, s). length s)") auto

text \<open>\<^verbatim>\<open>s.split(sep)\<close> for a non-empty separator.\<close>

function split_acc :: "string \<Rightarrow> string \<Rightarrow> string \<Rightarrow> string list" where
  "split_acc sep acc [] = [rev acc]"
| "split_acc sep acc (c # cs) =
     (if sep \<noteq> [] \<and> prefix sep (c # cs)
      then rev acc # split_acc sep [] (drop (length sep) (c # cs))
      else split_acc sep (c # acc) cs)"
  by pat_completeness auto
termination
  by (relation "measure (\<lambda>(sep, acc, s). length s)") auto

definition split_str :: "string \<Rightarrow> string \<Rightarrow> string list" where
  "split_str sep s = split_acc sep [] s"

fun join_str :: "string \<Rightarrow> string list \<Rightarrow> string" where
  "join_str sep [] = []"
| "join_str sep [x] = x"
| "join_str sep (x # y # ys) = x @ sep @ join_str sep (y # ys)"

text \<open>\<^verbatim>\<open>h.includes(b)\<close>.\<close>

fun includes_str :: "string \<Rightarrow> string \<Rightarrow> bool" where
  "includes_str [] b = (b = [])"
| "includes_str (c # cs) b = (prefix b (c # cs) \<or> includes_str cs b)"

definition trim :: "string \<Rightarrow> string" where
  "trim s = rev (dropWhile is_space (rev (dropWhile is_space s)))"

definition endsWith :: "string \<Rightarrow> string \<Rightarrow> bool" where
  "endsWith s t = suffix t s"

definition startsWith :: "string \<Rightarrow> string \<Rightarrow> bool" where
  "startsWith s t = prefix t s"


text \<open>A regular expression that begins with \<^verbatim>\<open>^\<close> (no \<^verbatim>\<open>m\<close> flag) can only match at index 0.\<close>

definition rx_test_start :: "rx \<Rightarrow> string \<Rightarrow> bool" where
  "rx_test_start r s = (rx_m r Some s \<noteq> None)"

definition replace_start :: "rx \<Rightarrow> string \<Rightarrow> string \<Rightarrow> string" where
  "replace_start r rep s = (case rx_m r Some s of None \<Rightarrow> s | Some v \<Rightarrow> rep @ v)"

text \<open>A number in a template literal, for a non-negative integer.\<close>

fun show_nat :: "nat \<Rightarrow> string" where
  "show_nat n = (if n < 10 then [''0123456789'' ! n]
                 else show_nat (n div 10) @ [''0123456789'' ! (n mod 10)])"

declare show_nat.simps [simp del]

section \<open>utils.ts: the pure functions\<close>

definition EMPTY :: string where
  "EMPTY = []"

text \<open>\<^verbatim>\<open>PROTOCOL_REGEX = /^.+:\/\//\<close>\<close>

definition PROTOCOL_REGEX :: rx where
  "PROTOCOL_REGEX = Seq (Rep 1 None dot) (lit ''://'')"

record url_parts =
  directoryPath :: string
  filename :: string

definition splitUrl :: "string \<Rightarrow> url_parts" where
  "splitUrl url =
     (let urlWithoutProtocol = replace_start PROTOCOL_REGEX [] url;
          parts = split_str ''/'' urlWithoutProtocol
      in \<lparr> directoryPath = join_str ''/'' (butlast parts),
           filename = (if last parts = [] then ''index'' else last parts) \<rparr>)"

text \<open>The optional \<open>path\<close> is a string; an absent and an empty path are both falsy.\<close>

definition unionUrlParts :: "string \<Rightarrow> string \<Rightarrow> nat \<Rightarrow> string \<Rightarrow> string" where
  "unionUrlParts protocol domain port path =
     (let partial = domain @ '':'' @ show_nat port @ (if path \<noteq> [] then ''/'' @ path else EMPTY)
      in protocol @ ''://'' @ replace_all (lit ''//'') ''/'' partial)"

definition unionUrl :: "string \<Rightarrow> string \<Rightarrow> string" where
  "unionUrl baseUrl path =
     (let separator = (if endsWith baseUrl ''/'' \<or> (path \<noteq> [] \<and> startsWith path ''/'') then [] else ''/'')
      in baseUrl @ separator @ (if path \<noteq> [] then path else EMPTY))"

definition removePortFromUrl :: "string \<Rightarrow> string" where
  "removePortFromUrl url = replace_first (Seq (lit '':'') (Rep 1 None is_digit)) EMPTY url"

definition removeDoubleBars :: "string \<Rightarrow> string" where
  "removeDoubleBars url =
     (let regex = Rep 2 None (\<lambda>c. c = CHR ''/'');
          parts = split_str ''://'' url
      in if length parts > 1 then parts ! 0 @ ''://'' @ replace_all regex ''/'' (parts ! 1)
         else replace_all regex ''/'' url)"

section \<open>scraping.ts: constants and pure functions\<close>

definition DEFAULT_TIMEOUT_MILLIS :: int where
  "DEFAULT_TIMEOUT_MILLIS = 60 * 1000"

definition DEFAULT_HTTP_SUCCESS_STATUS_CODES :: int where
  "DEFAULT_HTTP_SUCCESS_STATUS_CODES = 200"

definition DEFAULT_MAX_RETRIES :: int where
  "DEFAULT_MAX_RETRIES = 20"

definition html_alternatives :: rx where
  "html_alternatives = Alt (liti ''html'' ''HTML'') (Alt (liti ''htm'' ''HTM'') (Alt (liti ''xhtml'' ''XHTML'') (liti ''xml'' ''XML'')))"

text \<open>\<^verbatim>\<open>HTML_FILENAME_REGEX = /.+\.(html|htm|xhtml|xml)/gi\<close>\<close>

definition HTML_FILENAME_REGEX :: rx where
  "HTML_FILENAME_REGEX = Seq (Rep 1 None dot) (Seq (lit ''.'') html_alternatives)"

text \<open>\<^verbatim>\<open>HTML_CONTENT_TYPE_REGEX = /.+\/(html|htm|xhtml|xml)/gi\<close>\<close>

definition HTML_CONTENT_TYPE_REGEX :: rx where
  "HTML_CONTENT_TYPE_REGEX = Seq (Rep 1 None dot) (Seq (lit ''/'') html_alternatives)"

text \<open>\<^verbatim>\<open>IGNORE_URL_REGEX = /.+\/about:blank$/gi\<close>\<close>

definition IGNORE_URL_REGEX :: rx where
  "IGNORE_URL_REGEX = Seq (Rep 1 None dot) (Seq (liti ''/about:blank'' ''/ABOUT:BLANK'') Eol)"

text \<open>
  \<^verbatim>\<open>extractLinks\<close>: every match of \<^verbatim>\<open>/(href|src)\s*=\s*["']([^"']+)["']/gi\<close>, left to right,
  the search resuming after each match; the result is the second group of each.
\<close>

definition is_quote :: "char \<Rightarrow> bool" where
  "is_quote c = (c = CHR 0x22 \<or> c = CHR 0x27)"

definition attribute_head :: rx where
  "attribute_head =
     Seq (Alt (liti ''href'' ''HREF'') (liti ''src'' ''SRC''))
       (Seq (Rep 0 None is_space) (Seq (lit ''='') (Seq (Rep 0 None is_space) (Cls is_quote))))"

definition attribute_at :: "string \<Rightarrow> (string \<times> string) option" where
  "attribute_at s =
     rx_m attribute_head
       (\<lambda>r1. greedy (\<lambda>c. \<not> is_quote c) 1 None
          (\<lambda>r2. rx_m (Cls is_quote) (\<lambda>r3. Some (take (length r1 - length r2) r1, r3)) r2) r1) s"

function extractLinks :: "string \<Rightarrow> string list" where
  "extractLinks [] = []"
| "extractLinks (c # cs) =
     (case attribute_at (c # cs) of
        None \<Rightarrow> extractLinks cs
      | Some (v, rest) \<Rightarrow>
          if length rest < length (c # cs) then v # extractLinks rest else extractLinks cs)"
  by pat_completeness auto
termination
  by (relation "measure length") auto

definition removeExtensionOrFragment :: "string \<Rightarrow> string" where
  "removeExtensionOrFragment url =
     (if rx_test (Seq (Rep 1 None dot) (Seq (lit ''/'') Eol)) url then url
      else if rx_test
                (Seq (Rep 1 None dot) (Seq (lit ''/'')
                   (Seq (Alt (Seq (Rep 1 None dot) (Seq (lit ''.'') (Rep 2 (Some 5) is_alnum)))
                             (Seq (lit ''#'') (Rep 0 None (\<lambda>c. c \<noteq> CHR ''/''))))
                        Eol))) url
           then replace_first
                  (Seq (lit ''/'') (Seq (Rep 0 None (\<lambda>c. c \<noteq> CHR ''/''))
                     (Seq (Rep 0 (Some 1) (\<lambda>c. c = CHR ''/'')) Eol))) ''/'' url
           else url)"

text \<open>The test \<^verbatim>\<open>/^https?:\/\//i\<close> of \<^verbatim>\<open>filterSameDomainLinks\<close>.\<close>

definition has_protocol :: "string \<Rightarrow> bool" where
  "has_protocol link =
     rx_test_start
       (Seq (liti ''http'' ''HTTP'') (Seq (Rep 0 (Some 1) (\<lambda>c. c = CHR ''s'' \<or> c = CHR ''S'')) (lit ''://''))) link"


section \<open>The environment: browser, network and file system\<close>

text \<open>
  What the code raises and catches is an \<open>error\<close> value. A \<^verbatim>\<open>Response\<close> of the browser
  carries its status and headers; reading its body or its text may fail.
\<close>

datatype error =
    BrowserError string
  | TypeError string
  | URIError string
  | FsError string

record response =
  rstatus :: int
  rheaders :: "(string \<times> string) list"
  rbody :: "error + bytes"
  rtext :: "error + string"

text \<open>
  The capabilities the code consumes, over a state \<open>'w\<close> of the outside world (the
  browser session, the remote site, the disk). Each call may change that state.
  \<^item> \<open>launch\<close>: \<^verbatim>\<open>initializeBrowser\<close> (\<^verbatim>\<open>chromium.launch\<close>, \<^verbatim>\<open>newContext\<close>, \<^verbatim>\<open>newPage\<close>);
  \<^item> \<open>browser_close\<close>: \<^verbatim>\<open>browser.close()\<close>;
  \<^item> \<open>goto_page w url timeout\<close>: \<^verbatim>\<open>page.goto\<close>, which raises, or returns \<^verbatim>\<open>null\<close> or a response;
  \<^item> \<open>page_url\<close>: \<^verbatim>\<open>page.url()\<close>;
  \<^item> \<open>fetch_raw w url timeout maxRetries\<close>: \<^verbatim>\<open>page.request.fetch\<close>;
  \<^item> \<open>mkdirSync\<close>, \<open>existsSync\<close>, \<open>writeFileSync\<close>: the calls of \<^verbatim>\<open>fs\<close>
    (\<open>mkdirSync\<close> always with \<^verbatim>\<open>recursive: true\<close>);
  \<^item> \<open>path_join\<close>: \<^verbatim>\<open>path.join\<close>; \<open>url_hostname\<close>: \<^verbatim>\<open>new URL(link).hostname\<close>, \<open>None\<close> when
    the constructor raises; \<open>encodeUrl\<close>: the package \<^verbatim>\<open>encodeurl\<close>; \<open>decodeURIComponent\<close>;
    \<open>utf8\<close>: \<^verbatim>\<open>Buffer.from(content, 'utf-8')\<close>.
\<close>

record 'w env =
  launch :: "'w \<Rightarrow> error option \<times> 'w"
  browser_close :: "'w \<Rightarrow> error option \<times> 'w"
  goto_page :: "'w \<Rightarrow> string \<Rightarrow> int \<Rightarrow> (error + response option) \<times> 'w"
  page_url :: "'w \<Rightarrow> string"
  fetch_raw :: "'w \<Rightarrow> string \<Rightarrow> int \<Rightarrow> int \<Rightarrow> (error + response) \<times> 'w"
  mkdirSync :: "'w \<Rightarrow> string \<Rightarrow> error option \<times> 'w"
  existsSync :: "'w \<Rightarrow> string \<Rightarrow> bool"
  writeFileSync :: "'w \<Rightarrow> string \<Rightarrow> bytes \<Rightarrow> error option \<times> 'w"
  path_join :: "string list \<Rightarrow> string"
  url_hostname :: "string \<Rightarrow> string option"
  encodeUrl :: "string \<Rightarrow> string"
  decodeURIComponent :: "string \<Rightarrow> error + string"
  utf8 :: "string \<Rightarrow> bytes"

text \<open>\<^verbatim>\<open>CrawlParams\<close>, the fields the modelled code reads. The pacing amounts and the proxy
  only reach the timer and the browser.\<close>

record params =
  protocol :: string
  domain_base :: string
  domain_start :: string
  domain_startPath :: string
  port :: nat
  baseOutputDir :: string
  overrides :: "bool option"
  timeout :: "int option"
  maxRetries :: "int option"

text \<open>The first argument of \<^verbatim>\<open>savePageContent\<close>: \<^verbatim>\<open>string | Buffer | null | undefined\<close>.\<close>

datatype content = CString string | CBuffer bytes | CNull | CUndefined

text \<open>\<^verbatim>\<open>HttpResponse.response\<close>\<close>

record http_response =
  status :: int
  headers :: "(string \<times> string) list option"
  body :: content
  text_of :: "string option"
  binary :: bool
  url :: string

text \<open>
  The calls a run makes, in order. The log is not part of the source; it records each
  call where the source makes it, so that properties of the order of calls can be
  stated.
\<close>

datatype event =
    EvDequeue string
  | EvVisit string
  | EvRequest string
  | EvGoto string
  | EvFetch string
  | EvSavePage content string
  | EvMkdir string
  | EvWrite string bytes
  | EvExtract string
  | EvEnqueue string
  | EvFailed string error
  | EvInterval
  | EvClose

text \<open>
  The state of a run: the outside world, the work queue, the visited set, the
  \<^verbatim>\<open>lastIndex\<close> of the three module-level regular expressions with the \<^verbatim>\<open>g\<close> flag, and
  the log.
\<close>

record 'w crawl_state =
  world :: 'w
  queue :: "string list"
  visited :: "string set"
  li_filename :: nat
  li_ctype :: nat
  li_ignore :: nat
  trace :: "event list"

definition emit :: "event \<Rightarrow> 'w crawl_state \<Rightarrow> 'w crawl_state" where
  "emit e s = s\<lparr>trace := trace s @ [e]\<rparr>"

section \<open>utils.ts: the functions with effects\<close>

definition getFileFullPath :: "'w env \<Rightarrow> string \<Rightarrow> string \<Rightarrow> string" where
  "getFileFullPath env base u =
     path_join env [base, directoryPath (splitUrl u), filename (splitUrl u)]"

text \<open>\<^verbatim>\<open>createDirectories\<close> logs what \<^verbatim>\<open>mkdirSync\<close> raises and raises it again.\<close>

definition createDirectories ::
  "'w env \<Rightarrow> string \<Rightarrow> string \<Rightarrow> 'w crawl_state \<Rightarrow> (error + unit) \<times> 'w crawl_state" where
  "createDirectories env base u s =
     (let fullPath = path_join env [base, directoryPath (splitUrl u)];
          (r, w) = mkdirSync env (world s) fullPath;
          s1 = emit (EvMkdir fullPath) (s\<lparr>world := w\<rparr>)
      in case r of Some e \<Rightarrow> (Inl e, s1) | None \<Rightarrow> (Inr (), s1))"

text \<open>\<^verbatim>\<open>saveFile\<close>: the body is \<^verbatim>\<open>null | Uint8Array\<close>; what \<^verbatim>\<open>writeFileSync\<close> raises is logged
  and raised again.\<close>

definition saveFile ::
  "'w env \<Rightarrow> string \<Rightarrow> string \<Rightarrow> bytes option \<Rightarrow> 'w crawl_state \<Rightarrow> (error + unit) \<times> 'w crawl_state" where
  "saveFile env base u b s =
     (case b of
        None \<Rightarrow> (Inr (), s)
      | Some payload \<Rightarrow>
          (let filePath = getFileFullPath env base u;
               (r, w) = writeFileSync env (world s) filePath payload;
               s1 = emit (EvWrite filePath payload) (s\<lparr>world := w\<rparr>)
           in case r of Some e \<Rightarrow> (Inl e, s1) | None \<Rightarrow> (Inr (), s1)))"

definition existsFile :: "'w env \<Rightarrow> string \<Rightarrow> string \<Rightarrow> 'w crawl_state \<Rightarrow> bool" where
  "existsFile env base u s = existsSync env (world s) (getFileFullPath env base u)"

text \<open>\<^verbatim>\<open>interval\<close> only waits.\<close>

definition interval :: "'w crawl_state \<Rightarrow> 'w crawl_state" where
  "interval s = emit EvInterval s"

section \<open>scraping.ts: the functions with effects\<close>

text \<open>The \<^verbatim>\<open>filter\<close> on \<^verbatim>\<open>IGNORE_URL_REGEX\<close>: one \<^verbatim>\<open>test\<close> per link, in order, on the same
  regular expression object.\<close>

fun filter_ignore :: "nat \<Rightarrow> string list \<Rightarrow> string list \<times> nat" where
  "filter_ignore li [] = ([], li)"
| "filter_ignore li (l # ls) =
     (let (m, li1) = rx_test_g IGNORE_URL_REGEX li l;
          (rest, li2) = filter_ignore li1 ls
      in (if m then rest else l # rest, li2))"

text \<open>The last \<^verbatim>\<open>filter\<close>: \<^verbatim>\<open>url.hostname\<close> is a string, never \<^verbatim>\<open>null\<close>.\<close>

definition same_domain :: "'w env \<Rightarrow> params \<Rightarrow> string \<Rightarrow> bool" where
  "same_domain env ps link =
     (case url_hostname env link of
        None \<Rightarrow> False
      | Some hostname \<Rightarrow> includes_str hostname (domain_base ps) \<or> False)"

definition canonical_link :: "'w env \<Rightarrow> string \<Rightarrow> string \<Rightarrow> string" where
  "canonical_link env currentUrl link =
     (if has_protocol link then link
      else encodeUrl env (removeDoubleBars (unionUrl (removeExtensionOrFragment currentUrl) link)))"

text \<open>\<^verbatim>\<open>filterSameDomainLinks\<close>, with the \<^verbatim>\<open>lastIndex\<close> of \<^verbatim>\<open>IGNORE_URL_REGEX\<close> before and after.\<close>

definition filterSameDomainLinks ::
  "'w env \<Rightarrow> string \<Rightarrow> string list \<Rightarrow> params \<Rightarrow> nat \<Rightarrow> string list \<times> nat" where
  "filterSameDomainLinks env currentUrl links ps li =
     (let mapped = map (canonical_link env currentUrl) (map trim links);
          (kept, li1) = filter_ignore li mapped
      in (filter (same_domain env ps) kept, li1))"

definition savePageContent ::
  "'w env \<Rightarrow> content \<Rightarrow> string \<Rightarrow> string \<Rightarrow> bool \<Rightarrow> 'w crawl_state \<Rightarrow> (error + unit) \<times> 'w crawl_state" where
  "savePageContent env c base u ov s =
     (case createDirectories env base u s of
        (Inl e, s1) \<Rightarrow> (Inl e, s1)
      | (Inr x, s1) \<Rightarrow>
          if \<not> ov \<and> existsFile env base u s1 then (Inr (), s1)
          else
            (let payload = (case c of CString t \<Rightarrow> utf8 env t | CBuffer b \<Rightarrow> b | CNull \<Rightarrow> [] | CUndefined \<Rightarrow> [])
             in if c \<noteq> CNull then saveFile env base u (Some payload) s1 else (Inr (), s1)))"

definition timeout_of :: "params \<Rightarrow> int" where
  "timeout_of ps = (case timeout ps of None \<Rightarrow> DEFAULT_TIMEOUT_MILLIS
                    | Some t \<Rightarrow> if t = 0 then DEFAULT_TIMEOUT_MILLIS else t)"

definition maxRetries_of :: "params \<Rightarrow> int" where
  "maxRetries_of ps = (case maxRetries ps of None \<Rightarrow> DEFAULT_MAX_RETRIES
                       | Some t \<Rightarrow> if t = 0 then DEFAULT_MAX_RETRIES else t)"

definition fetch ::
  "'w env \<Rightarrow> string \<Rightarrow> params \<Rightarrow> 'w crawl_state \<Rightarrow> (error + response) \<times> 'w crawl_state" where
  "fetch env u ps s =
     (let (r, w) = fetch_raw env (world s) u (timeout_of ps) (maxRetries_of ps)
      in (r, emit (EvFetch u) (s\<lparr>world := w\<rparr>)))"

definition goto ::
  "'w env \<Rightarrow> string \<Rightarrow> params \<Rightarrow> 'w crawl_state \<Rightarrow> (error + response option) \<times> 'w crawl_state" where
  "goto env u ps s =
     (let (r, w) = goto_page env (world s) u (timeout_of ps)
      in (r, emit (EvGoto u) (s\<lparr>world := w\<rparr>)))"

text \<open>The end of \<^verbatim>\<open>request\<close>: the result is filled from the response that is final. Both
  responses are objects there, so the test \<^verbatim>\<open>if (response)\<close> holds.\<close>

definition fill_result ::
  "string \<Rightarrow> bool \<Rightarrow> response \<Rightarrow> 'w crawl_state \<Rightarrow> (error + http_response) \<times> 'w crawl_state" where
  "fill_result u bin resp s =
     (case rbody resp of
        Inl e \<Rightarrow> (Inl e, s)
      | Inr b \<Rightarrow>
          (case rtext resp of
             Inl e \<Rightarrow> (Inl e, s)
           | Inr t \<Rightarrow>
               (Inr \<lparr> status = rstatus resp, headers = Some (rheaders resp), body = CBuffer b,
                      text_of = Some t, binary = bin, url = u \<rparr>, s)))"

text \<open>
  \<^verbatim>\<open>request\<close>. A \<^verbatim>\<open>null\<close> from \<^verbatim>\<open>page.goto\<close> makes \<^verbatim>\<open>response.headers()\<close> raise. A missing
  \<^verbatim>\<open>content-type\<close> is \<^verbatim>\<open>undefined\<close>, which \<^verbatim>\<open>test\<close> reads as the string \<^verbatim>\<open>undefined\<close>; the
  second \<^verbatim>\<open>test\<close> only runs when the first one fails.
\<close>

definition request ::
  "'w env \<Rightarrow> string \<Rightarrow> params \<Rightarrow> 'w crawl_state \<Rightarrow> (error + http_response) \<times> 'w crawl_state" where
  "request env u ps s0 =
     (let s = emit (EvRequest u) s0 in
      case goto env u ps s of
        (Inl e, s1) \<Rightarrow> (Inl e, s1)
      | (Inr None, s1) \<Rightarrow> (Inl (TypeError ''Cannot read properties of null''), s1)
      | (Inr (Some resp), s1) \<Rightarrow>
          (let contentType = (case map_of (rheaders resp) ''content-type'' of
                                None \<Rightarrow> ''undefined'' | Some c \<Rightarrow> c);
               (m1, l1) = rx_test_g HTML_FILENAME_REGEX (li_filename s1) u;
               s2 = s1\<lparr>li_filename := l1\<rparr>
           in if m1 then fill_result u False resp s2
              else
                (let (m2, l2) = rx_test_g HTML_CONTENT_TYPE_REGEX (li_ctype s2) contentType;
                     s3 = s2\<lparr>li_ctype := l2\<rparr>
                 in if m2 then fill_result u False resp s3
                    else
                      (case fetch env u ps s3 of
                         (Inl e, s4) \<Rightarrow> (Inl e, s4)
                       | (Inr resp2, s4) \<Rightarrow> fill_result u True resp2 s4))))"

fun enqueueNewLinks :: "string list \<Rightarrow> 'w crawl_state \<Rightarrow> 'w crawl_state" where
  "enqueueNewLinks [] s = s"
| "enqueueNewLinks (link # links) s =
     (if link \<notin> visited s
      then enqueueNewLinks links (emit (EvEnqueue link) (s\<lparr>queue := queue s @ [link]\<rparr>))
      else enqueueNewLinks links s)"

text \<open>
  The body of the \<^verbatim>\<open>try\<close> block of the loop of \<^verbatim>\<open>crawl\<close>. It ends normally, with the
  \<^verbatim>\<open>continue\<close> of a binary result, or with an exception.
\<close>

datatype outcome = Normal | Continue | Throw error

definition process_url ::
  "'w env \<Rightarrow> params \<Rightarrow> string \<Rightarrow> 'w crawl_state \<Rightarrow> outcome \<times> 'w crawl_state" where
  "process_url env ps currentUrl s =
     (case request env currentUrl ps s of
        (Inl e, s1) \<Rightarrow> (Throw e, s1)
      | (Inr result, s1) \<Rightarrow>
          if status result = DEFAULT_HTTP_SUCCESS_STATUS_CODES then
            (case decodeURIComponent env (removePortFromUrl (page_url env (world s1))) of
               Inl e \<Rightarrow> (Throw e, s1)
             | Inr u \<Rightarrow>
                 (case savePageContent env (body result) (baseOutputDir ps) u
                         (case overrides ps of None \<Rightarrow> False | Some b \<Rightarrow> b)
                         (emit (EvSavePage (body result) u) s1) of
                    (Inl e, s2) \<Rightarrow> (Throw e, s2)
                  | (Inr x, s2) \<Rightarrow>
                      if binary result then (Continue, s2)
                      else
                        (let t = (case text_of result of None \<Rightarrow> EMPTY | Some t \<Rightarrow> t);
                             extractedLinks = extractLinks t;
                             s3 = emit (EvExtract t) s2;
                             (filteredLinks, li) =
                                filterSameDomainLinks env (page_url env (world s3)) extractedLinks ps (li_ignore s3)
                         in (Normal, enqueueNewLinks filteredLinks (s3\<lparr>li_ignore := li\<rparr>)))))
          else (Normal, s1))"

text \<open>
  One turn of the \<^verbatim>\<open>while\<close> loop of \<^verbatim>\<open>crawl\<close>, on a non-empty queue: \<open>dequeue\<close> is
  \<^verbatim>\<open>queue.shift()\<close>, \<open>mark_visited\<close> is \<^verbatim>\<open>visited.add(currentUrl)\<close>. The \<^verbatim>\<open>catch\<close> logs the
  exception; \<^verbatim>\<open>interval\<close> follows the \<^verbatim>\<open>try\<close> statement, so a \<^verbatim>\<open>continue\<close> skips it.
\<close>

definition dequeue :: "string \<Rightarrow> string list \<Rightarrow> 'w crawl_state \<Rightarrow> 'w crawl_state" where
  "dequeue currentUrl rest s = emit (EvDequeue currentUrl) (s\<lparr>queue := rest\<rparr>)"

definition mark_visited :: "string \<Rightarrow> 'w crawl_state \<Rightarrow> 'w crawl_state" where
  "mark_visited currentUrl s = emit (EvVisit currentUrl) (s\<lparr>visited := insert currentUrl (visited s)\<rparr>)"

definition crawl_iter :: "'w env \<Rightarrow> params \<Rightarrow> 'w crawl_state \<Rightarrow> 'w crawl_state" where
  "crawl_iter env ps s =
     (case queue s of
        [] \<Rightarrow> s
      | currentUrl # rest \<Rightarrow>
          (let s0 = dequeue currentUrl rest s in
           if currentUrl \<in> visited s0 then s0
           else
             (let s1 = mark_visited currentUrl s0 in
              case process_url env ps currentUrl s1 of
                (Continue, s2) \<Rightarrow> s2
              | (Normal, s2) \<Rightarrow> interval s2
              | (Throw e, s2) \<Rightarrow> interval (emit (EvFailed currentUrl e) s2))))"

text \<open>The loop, with fuel: \<open>None\<close> when the queue is not empty after \<open>n\<close> turns.\<close>

fun crawl_loop :: "'w env \<Rightarrow> params \<Rightarrow> nat \<Rightarrow> 'w crawl_state \<Rightarrow> 'w crawl_state option" where
  "crawl_loop env ps 0 s = (if queue s = [] then Some s else None)"
| "crawl_loop env ps (Suc n) s =
     (if queue s = [] then Some s else crawl_loop env ps n (crawl_iter env ps s))"

text \<open>The state after \<open>n\<close> turns of the loop (fewer when the queue empties before).\<close>

fun crawl_turns :: "'w env \<Rightarrow> params \<Rightarrow> nat \<Rightarrow> 'w crawl_state \<Rightarrow> 'w crawl_state" where
  "crawl_turns env ps 0 s = s"
| "crawl_turns env ps (Suc n) s =
     (if queue s = [] then s else crawl_turns env ps n (crawl_iter env ps s))"

text \<open>The state at the head of the loop: the seed in the queue, nothing visited. The
  regular expressions are fresh when the module has just been loaded.\<close>

definition initial_state :: "params \<Rightarrow> 'w \<Rightarrow> 'w crawl_state" where
  "initial_state ps w =
     \<lparr> world = w,
       queue = [unionUrlParts (protocol ps) (domain_start ps) (port ps) (domain_startPath ps)],
       visited = {}, li_filename = 0, li_ctype = 0, li_ignore = 0, trace = [] \<rparr>"

text \<open>
  \<^verbatim>\<open>crawl\<close>: the browser is launched and the output directory made outside the \<^verbatim>\<open>try\<close>
  statement, so what they raise leaves \<^verbatim>\<open>crawl\<close>; the loop runs inside it, and the
  \<^verbatim>\<open>finally\<close> block closes the browser, which may raise as well. \<open>None\<close>: the fuel did not
  suffice.
\<close>

definition crawl :: "'w env \<Rightarrow> params \<Rightarrow> nat \<Rightarrow> 'w \<Rightarrow> (error + 'w crawl_state) option" where
  "crawl env ps fuel w0 =
     (case launch env w0 of
        (Some e, w1) \<Rightarrow> Some (Inl e)
      | (None, w1) \<Rightarrow>
          (case mkdirSync env w1 (baseOutputDir ps) of
             (Some e, w2) \<Rightarrow> Some (Inl e)
           | (None, w2) \<Rightarrow>
               (case crawl_loop env ps fuel (initial_state ps w2) of
                  None \<Rightarrow> None
                | Some s \<Rightarrow>
                    (case browser_close env (world s) of
                       (Some e, w3) \<Rightarrow> Some (Inl e)
                     | (None, w3) \<Rightarrow> Some (Inr (emit EvClose (s\<lparr>world := w3\<rparr>)))))))"

section \<open>Reading the log\<close>

text \<open>
  \<open>requests\<close>: the URLs handed to \<^verbatim>\<open>request\<close>, in order; \<open>visits\<close>: the URLs added to the
  visited set, in order. \<open>extends P s s1\<close>: from \<open>s\<close> to \<open>s1\<close> the queue, the visited set
  and the state of \<^verbatim>\<open>IGNORE_URL_REGEX\<close> are the same and the log has grown by events of
  kind \<open>P\<close>. \<open>crawl_inv\<close> is the invariant of the loop of \<^verbatim>\<open>crawl\<close>.
\<close>

fun requests :: "event list \<Rightarrow> string list" where
  "requests [] = []"
| "requests (EvRequest u # es) = u # requests es"
| "requests (e # es) = requests es"

fun visits :: "event list \<Rightarrow> string list" where
  "visits [] = []"
| "visits (EvVisit u # es) = u # visits es"
| "visits (e # es) = visits es"

fun fs_event :: "event \<Rightarrow> bool" where
  "fs_event (EvMkdir p) = True"
| "fs_event (EvWrite p b) = True"
| "fs_event e = False"

fun net_event :: "event \<Rightarrow> bool" where
  "net_event (EvGoto u) = True"
| "net_event (EvFetch u) = True"
| "net_event e = False"

definition extends :: "(event \<Rightarrow> bool) \<Rightarrow> 'w crawl_state \<Rightarrow> 'w crawl_state \<Rightarrow> bool" where
  "extends P s s1 =
     (queue s1 = queue s \<and> visited s1 = visited s \<and> li_ignore s1 = li_ignore s \<and>
      (\<exists>evs. trace s1 = trace s @ evs \<and> list_all P evs))"

fun inner_event :: "event \<Rightarrow> bool" where
  "inner_event (EvGoto u) = True"
| "inner_event (EvFetch u) = True"
| "inner_event (EvSavePage c u) = True"
| "inner_event (EvMkdir p) = True"
| "inner_event (EvWrite p b) = True"
| "inner_event (EvExtract t) = True"
| "inner_event (EvEnqueue l) = True"
| "inner_event e = False"

definition crawl_inv :: "'w crawl_state \<Rightarrow> bool" where
  "crawl_inv s = (requests (trace s) = visits (trace s) \<and> distinct (visits (trace s)) \<and>
                  set (visits (trace s)) = visited s)"

section \<open>A small site, to run the model on\<close>

text \<open>
  An outside world for the examples: the page the browser shows and the files on disk.
  The site is a table from URL to response, \<open>readonly\<close> lists the paths
  \<^verbatim>\<open>writeFileSync\<close> refuses. \<open>simple_hostname\<close> stands for \<^verbatim>\<open>new URL(link).hostname\<close> on
  URLs of the shape \<^verbatim>\<open>http(s)://host[:port][/path]\<close>; on the strings of the examples
  \<^verbatim>\<open>path.join\<close> joins with one separator, \<^verbatim>\<open>encodeurl\<close> and \<^verbatim>\<open>decodeURIComponent\<close> change
  nothing.
\<close>

record demo_world =
  current :: string
  disk :: "(string \<times> bytes) list"

definition simple_hostname :: "string \<Rightarrow> string option" where
  "simple_hostname u =
     (if has_protocol u
      then Some (map lower (takeWhile (\<lambda>c. c \<notin> set ''/:?#'') (drop 3 (dropWhile (\<lambda>c. c \<noteq> CHR '':'') u))))
      else None)"

definition demo_env :: "(string \<Rightarrow> response option) \<Rightarrow> string list \<Rightarrow> demo_world env" where
  "demo_env site readonly =
     \<lparr> launch = (\<lambda>w. (None, w)),
       browser_close = (\<lambda>w. (None, w)),
       goto_page = (\<lambda>w u t. case site u of
                      None \<Rightarrow> (Inl (BrowserError ''net::ERR_FAILED''), w)
                    | Some r \<Rightarrow> (Inr (Some r), w\<lparr>current := u\<rparr>)),
       page_url = current,
       fetch_raw = (\<lambda>w u t m. case site u of
                      None \<Rightarrow> (Inl (BrowserError ''net::ERR_FAILED''), w)
                    | Some r \<Rightarrow> (Inr r, w)),
       mkdirSync = (\<lambda>w p. (None, w)),
       existsSync = (\<lambda>w p. map_of (disk w) p \<noteq> None),
       writeFileSync = (\<lambda>w p b. if p \<in> set readonly then (Some (FsError ''EACCES''), w)
                                 else (None, w\<lparr>disk := (p, b) # disk w\<rparr>)),
       path_join = join_str ''/'',
       url_hostname = simple_hostname,
       encodeUrl = (\<lambda>s. s),
       decodeURIComponent = Inr,
       utf8 = map (\<lambda>c. of_nat (of_char c)) \<rparr>"

definition page :: "string \<Rightarrow> string \<Rightarrow> bytes \<Rightarrow> response" where
  "page ct t b = \<lparr> rstatus = 200, rheaders = [(''content-type'', ct)], rbody = Inr b, rtext = Inr t \<rparr>"

text \<open>A page with a link to an image and two links to a second page.\<close>

definition site1 :: "string \<Rightarrow> response option" where
  "site1 = map_of
     [(''http://h:80/'', page ''text/html'' ''<a href='a.png'><a href='b'><a href='b'>'' [1]),
      (''http://h:80/a.png'', page ''image/png'' [] [2, 3]),
      (''http://h:80/b'', page ''text/html'' [] [])]"

definition demo_params :: params where
  "demo_params = \<lparr> protocol = ''http'', domain_base = ''h'', domain_start = ''h'', domain_startPath = ''/'',
      port = 80, baseOutputDir = ''out'', overrides = None, timeout = None, maxRetries = None \<rparr>"

definition w0 :: demo_world where
  "w0 = \<lparr> current = ''about:blank'', disk = [] \<rparr>"

text \<open>A disk that already holds the file of the image.\<close>

definition w_saved :: demo_world where
  "w_saved = \<lparr> current = ''http://h:80/a.png'', disk = [(''out/h/a.png'', [9])] \<rparr>"

text \<open>Two pages served as \<^verbatim>\<open>text/html\<close>, neither with an HTML-like extension in its URL.\<close>

definition site2 :: "string \<Rightarrow> response option" where
  "site2 = map_of
     [(''http://h:80/'', page ''text/html'' ''<a href='b'>'' [1]),
      (''http://h:80/b'', page ''text/html'' ''<a href='c'>'' [4])]"


text \<open>The string ends in \<^verbatim>\<open>/about:blank\<close>, in any letter case.\<close>

definition ends_with_blank :: "string \<Rightarrow> bool" where
  "ends_with_blank c = suffix ''/about:blank'' (map lower c)"

text \<open>Parameters with the base domain of the domain-isolation example.\<close>

definition domain_params :: params where
  "domain_params = demo_params\<lparr> domain_base := ''base-domain.example'' \<rparr>"

text \<open>What the separator-collapsing rule asks for: every run of slashes becomes one slash.\<close>

function collapse :: "string \<Rightarrow> string" where
  "collapse [] = []"
| "collapse (c # cs) =
     (if c = CHR ''/'' then CHR ''/'' # collapse (dropWhile (\<lambda>d. d = CHR ''/'') cs)
      else c # collapse cs)"
  by pat_completeness auto
termination
  by (relation "measure length") (auto simp: length_dropWhile_le less_Suc_eq_le)

text \<open>
  \<^verbatim>\<open>filterSameDomainLinks\<close> as the older copy of the module has it: the link is joined to
  the page URL as it is, and the only filter is the one on the hostname.
\<close>

definition filterSameDomainLinks_old :: "'w env \<Rightarrow> string \<Rightarrow> string list \<Rightarrow> params \<Rightarrow> string list" where
  "filterSameDomainLinks_old env currentUrl links ps =
     filter (\<lambda>u. case url_hostname env u of
                   None \<Rightarrow> False
                 | Some hostname \<Rightarrow> includes_str hostname (domain_base ps))
       (map (\<lambda>link. if has_protocol link then link
                    else encodeUrl env (removeDoubleBars (unionUrl currentUrl link)))
          (map trim links))"

text \<open>
  A stricter file system, for the examples where something is in the way. \<open>posix_join\<close> is
  \<^verbatim>\<open>path.join\<close> on relative paths: the segments are joined and the result is normalised,
  empty and \<^verbatim>\<open>.\<close> segments go and \<^verbatim>\<open>..\<close> takes away the segment before it. \<open>strict_mkdir\<close>
  is \<^verbatim>\<open>mkdirSync\<close> with \<^verbatim>\<open>recursive: true\<close> on a disk of regular files: it raises when the
  path or one of its ancestors is a regular file.
\<close>

fun dot_segments :: "string list \<Rightarrow> string list \<Rightarrow> string list" where
  "dot_segments acc [] = rev acc"
| "dot_segments acc (p # ps) =
     (if p = [] \<or> p = ''.'' then dot_segments acc ps
      else if p = ''..'' \<and> acc \<noteq> [] \<and> hd acc \<noteq> ''..'' then dot_segments (tl acc) ps
      else dot_segments (p # acc) ps)"

definition posix_join :: "string list \<Rightarrow> string" where
  "posix_join ps = join_str ''/'' (dot_segments [] (split_str ''/'' (join_str ''/'' ps)))"

definition ancestors :: "string \<Rightarrow> string list" where
  "ancestors p = map (join_str ''/'') (butlast (tl (prefixes (split_str ''/'' p))))"

definition strict_mkdir :: "demo_world \<Rightarrow> string \<Rightarrow> error option \<times> demo_world" where
  "strict_mkdir w p =
     (if map_of (disk w) p \<noteq> None then (Some (FsError ''EEXIST''), w)
      else if list_ex (\<lambda>q. map_of (disk w) q \<noteq> None) (ancestors p) then (Some (FsError ''ENOTDIR''), w)
      else (None, w))"

definition fs_env :: "demo_world env" where
  "fs_env = (demo_env site1 [])\<lparr> mkdirSync := strict_mkdir, path_join := posix_join \<rparr>"

text \<open>A disk where the regular file \<^verbatim>\<open>out/h\<close> is in the place of the directory of the host.\<close>

definition w_file :: demo_world where
  "w_file = \<lparr> current = ''about:blank'', disk = [(''out/h'', [9])] \<rparr>"

text \<open>
  An image whose URL holds \<^verbatim>\<open>%E9\<close> before the dot: the byte does not begin a UTF-8
  sequence that the next character continues, so \<^verbatim>\<open>decodeURIComponent\<close> raises
  \<^verbatim>\<open>URIError\<close> on the URL. \<open>decode_env\<close> raises on the strings with \<^verbatim>\<open>%E9.\<close> and changes
  nothing in the others.
\<close>

definition site3 :: "string \<Rightarrow> response option" where
  "site3 = map_of [(''http://h:80/caf%E9.png'', page ''image/png'' [] [5])]"

definition decode_env :: "demo_world env" where
  "decode_env = (demo_env site3 [])\<lparr> decodeURIComponent :=
     (\<lambda>s. if includes_str s ''%E9.'' then Inl (URIError ''URI malformed'') else Inr s) \<rparr>"

section \<open>What each function adds to the log\<close>

lemma requests_append [simp]: "requests (a @ b) = requests a @ requests b"
  by (induction a rule: requests.induct) auto

lemma visits_append [simp]: "visits (a @ b) = visits a @ visits b"
  by (induction a rule: visits.induct) auto

lemma emit_simps [simp]:
  "trace (emit e s) = trace s @ [e]"
  "queue (emit e s) = queue s"
  "visited (emit e s) = visited s"
  "world (emit e s) = world s"
  "li_filename (emit e s) = li_filename s"
  "li_ctype (emit e s) = li_ctype s"
  "li_ignore (emit e s) = li_ignore s"
  by (simp_all add: emit_def)

lemma extends_refl [simp]: "extends P s s"
  by (simp add: extends_def)

lemma extends_trans: "extends P s s1 \<Longrightarrow> extends P s1 s2 \<Longrightarrow> extends P s s2"
  by (auto simp: extends_def)

lemma extends_mono: "extends P s s1 \<Longrightarrow> (\<And>e. P e \<Longrightarrow> Q e) \<Longrightarrow> extends Q s s1"
  by (auto simp: extends_def list_all_iff)

lemma extends_emit: "P e \<Longrightarrow> extends P s s1 \<Longrightarrow> extends P s (emit e s1)"
  by (auto simp: extends_def)

lemma extends_world [simp]: "extends P s (s1\<lparr>world := w\<rparr>) = extends P s s1"
  by (simp add: extends_def)

lemma extends_li_filename [simp]: "extends P s (s1\<lparr>li_filename := l\<rparr>) = extends P s s1"
  by (simp add: extends_def)

lemma extends_li_ctype [simp]: "extends P s (s1\<lparr>li_ctype := l\<rparr>) = extends P s s1"
  by (simp add: extends_def)

lemma goto_extends: "goto env u ps s = (r, s1) \<Longrightarrow> extends net_event s s1"
  by (auto simp: goto_def split: prod.splits intro!: extends_emit)

lemma fetch_extends: "fetch env u ps s = (r, s1) \<Longrightarrow> extends net_event s s1"
  by (auto simp: fetch_def split: prod.splits intro!: extends_emit)

lemma fill_result_state: "fill_result u b r s = (x, s1) \<Longrightarrow> s1 = s"
  by (auto simp: fill_result_def split: sum.splits)

lemma request_extends:
  assumes "request env u ps s = (r, s1)"
  shows "extends net_event (emit (EvRequest u) s) s1"
proof -
  obtain g sg where g: "goto env u ps (emit (EvRequest u) s) = (g, sg)"
    by (cases "goto env u ps (emit (EvRequest u) s)")
  have sg: "extends net_event (emit (EvRequest u) s) sg"
    by (rule goto_extends [OF g])
  show ?thesis
  proof (cases g)
    case (Inl e)
    with assms g sg show ?thesis by (simp add: request_def)
  next
    case (Inr ro)
    show ?thesis
    proof (cases ro)
      case None
      with assms g sg Inr show ?thesis by (simp add: request_def)
    next
      case (Some resp)
      obtain m1 l1 where m1: "rx_test_g HTML_FILENAME_REGEX (li_filename sg) u = (m1, l1)"
        by (cases "rx_test_g HTML_FILENAME_REGEX (li_filename sg) u")
      obtain m2 l2 where m2: "rx_test_g HTML_CONTENT_TYPE_REGEX (li_ctype sg)
           (case map_of (rheaders resp) ''content-type'' of None \<Rightarrow> ''undefined'' | Some c \<Rightarrow> c) = (m2, l2)"
        by (cases "rx_test_g HTML_CONTENT_TYPE_REGEX (li_ctype sg)
           (case map_of (rheaders resp) ''content-type'' of None \<Rightarrow> ''undefined'' | Some c \<Rightarrow> c)")
      obtain f sf where f: "fetch env u ps (sg\<lparr>li_filename := l1, li_ctype := l2\<rparr>) = (f, sf)"
        by (cases "fetch env u ps (sg\<lparr>li_filename := l1, li_ctype := l2\<rparr>)")
      have "extends net_event (emit (EvRequest u) s) (sg\<lparr>li_filename := l1, li_ctype := l2\<rparr>)"
        using sg by simp
      then have sf: "extends net_event (emit (EvRequest u) s) sf"
        by (rule extends_trans [OF _ fetch_extends [OF f]])
      from assms g Inr Some m1 m2 f sg sf show ?thesis
        by (auto simp: request_def Let_def split: sum.splits if_splits dest!: fill_result_state)
    qed
  qed
qed

lemma fs_event_inner: "fs_event e \<Longrightarrow> inner_event e"
  by (cases e) auto

lemma net_event_inner: "net_event e \<Longrightarrow> inner_event e"
  by (cases e) auto

lemma inner_requests: "list_all inner_event evs \<Longrightarrow> requests evs = [] \<and> visits evs = []"
proof (induction evs)
  case Nil
  then show ?case by simp
next
  case (Cons e evs)
  then show ?case by (cases e) auto
qed

lemma createDirectories_extends: "createDirectories env base u s = (r, s1) \<Longrightarrow> extends fs_event s s1"
  by (auto simp: createDirectories_def Let_def split: prod.splits option.splits intro!: extends_emit)

lemma saveFile_extends: "saveFile env base u b s = (r, s1) \<Longrightarrow> extends fs_event s s1"
  by (auto simp: saveFile_def Let_def split: prod.splits option.splits intro!: extends_emit)

lemma savePageContent_extends:
  assumes "savePageContent env c base u ov s = (r, s2)"
  shows "extends fs_event s s2"
proof -
  obtain d s1 where d: "createDirectories env base u s = (d, s1)"
    by (cases "createDirectories env base u s")
  have s1: "extends fs_event s s1"
    by (rule createDirectories_extends [OF d])
  show ?thesis
  proof (cases d)
    case (Inl e)
    with assms d s1 show ?thesis by (simp add: savePageContent_def)
  next
    case (Inr x)
    show ?thesis
    proof (cases "\<not> ov \<and> existsFile env base u s1 \<or> c = CNull")
      case True
      with assms d Inr s1 show ?thesis
        by (auto simp: savePageContent_def Let_def split: if_splits)
    next
      case False
      with assms d Inr obtain payload where "saveFile env base u (Some payload) s1 = (r, s2)"
        by (auto simp: savePageContent_def Let_def)
      from extends_trans [OF s1 saveFile_extends [OF this]] show ?thesis .
    qed
  qed
qed

lemma enqueueNewLinks_frame:
  "visited (enqueueNewLinks ls s) = visited s \<and>
   trace (enqueueNewLinks ls s) = trace s @ map EvEnqueue (filter (\<lambda>l. l \<notin> visited s) ls) \<and>
   queue (enqueueNewLinks ls s) = queue s @ filter (\<lambda>l. l \<notin> visited s) ls"
  by (induction ls arbitrary: s) auto

lemma list_all_enqueue: "list_all inner_event (map EvEnqueue ls)"
  by (induction ls) auto

text \<open>What one run of the body of the \<^verbatim>\<open>try\<close> block adds to the log and leaves alone.\<close>

lemma process_url_frame:
  assumes "process_url env ps u s = (out, s3)"
  shows "visited s3 = visited s \<and>
         (\<exists>evs. trace s3 = trace s @ EvRequest u # evs \<and> list_all inner_event evs)"
proof -
  obtain r s1 where r: "request env u ps s = (r, s1)"
    by (cases "request env u ps s")
  from request_extends [OF r]
  have s1: "visited s1 = visited s"
    and "\<exists>evs. trace s1 = trace s @ EvRequest u # evs \<and> list_all net_event evs"
    by (auto simp: extends_def)
  then obtain e1 where e1: "trace s1 = trace s @ EvRequest u # e1" "list_all inner_event e1"
    by (auto simp: list_all_iff net_event_inner)
  show ?thesis
  proof (cases r)
    case (Inl e)
    with assms r s1 e1 show ?thesis by (auto simp: process_url_def)
  next
    case (Inr result)
    show ?thesis
    proof (cases "status result = DEFAULT_HTTP_SUCCESS_STATUS_CODES")
      case False
      with assms r Inr s1 e1 show ?thesis by (auto simp: process_url_def)
    next
      case ok: True
      show ?thesis
      proof (cases "decodeURIComponent env (removePortFromUrl (page_url env (world s1)))")
        case (Inl e)
        with assms r Inr ok s1 e1 show ?thesis by (auto simp: process_url_def)
      next
        case dec: (Inr p)
        obtain sv s2 where sv: "savePageContent env (body result) (baseOutputDir ps) p
              (case overrides ps of None \<Rightarrow> False | Some b \<Rightarrow> b)
              (emit (EvSavePage (body result) p) s1) = (sv, s2)"
          by (cases "savePageContent env (body result) (baseOutputDir ps) p
              (case overrides ps of None \<Rightarrow> False | Some b \<Rightarrow> b)
              (emit (EvSavePage (body result) p) s1)")
        from savePageContent_extends [OF sv]
        obtain e2 where e2: "trace s2 = trace s1 @ EvSavePage (body result) p # e2"
          "list_all inner_event e2" and v2: "visited s2 = visited s1"
          by (auto simp: extends_def list_all_iff fs_event_inner)
        have t2: "trace s2 = trace s @ EvRequest u # (e1 @ EvSavePage (body result) p # e2)"
          using e1 e2 by simp
        have a2: "list_all inner_event (e1 @ EvSavePage (body result) p # e2)"
          using e1 e2 by simp
        show ?thesis
        proof (cases "sv = Inr () \<and> \<not> binary result")
          case False
          with assms r Inr ok dec sv s1 v2 t2 a2 show ?thesis
            by (auto simp: process_url_def split: sum.splits)
        next
          case True
          with assms r Inr ok dec sv
          obtain t ls li where s3: "s3 = enqueueNewLinks ls (emit (EvExtract t) s2\<lparr>li_ignore := li\<rparr>)"
            by (auto simp: process_url_def Let_def split: prod.splits)
          have "visited s3 = visited s"
            using s3 s1 v2 by (simp add: enqueueNewLinks_frame)
          moreover have "trace s3 = trace s @ EvRequest u #
               ((e1 @ EvSavePage (body result) p # e2) @ EvExtract t #
                  map EvEnqueue (filter (\<lambda>l. l \<notin> visited s2) ls))"
            using s3 t2 by (simp add: enqueueNewLinks_frame)
          moreover have "list_all inner_event ((e1 @ EvSavePage (body result) p # e2) @ EvExtract t #
                  map EvEnqueue (filter (\<lambda>l. l \<notin> visited s2) ls))"
            using a2 by (simp add: list_all_enqueue)
          ultimately show ?thesis by blast
        qed
      qed
    qed
  qed
qed

lemma crawl_iter_visited:
  assumes "queue s = u # q" "u \<in> visited s"
  shows "crawl_iter env ps s = dequeue u q s"
  using assms by (simp add: crawl_iter_def Let_def dequeue_def)

lemma crawl_iter_fresh:
  assumes "queue s = u # q" "u \<notin> visited s"
  shows "visited (crawl_iter env ps s) = insert u (visited s) \<and>
         (\<exists>evs. trace (crawl_iter env ps s) = trace s @ [EvDequeue u, EvVisit u, EvRequest u] @ evs \<and>
                requests evs = [] \<and> visits evs = [])"
proof -
  let ?s1 = "mark_visited u (dequeue u q s)"
  obtain out s2 where p: "process_url env ps u ?s1 = (out, s2)"
    by (cases "process_url env ps u ?s1")
  from process_url_frame [OF p]
  obtain evs where v: "visited s2 = insert u (visited s)"
    and t: "trace s2 = trace s @ [EvDequeue u, EvVisit u, EvRequest u] @ evs"
    and a: "list_all inner_event evs"
    by (auto simp: mark_visited_def dequeue_def)
  from inner_requests [OF a] have q: "requests evs = []" "visits evs = []" by auto
  have nv: "u \<notin> visited (dequeue u q s)"
    using assms by (simp add: dequeue_def)
  show ?thesis
  proof (cases out)
    case Normal
    with assms p v t q nv show ?thesis
      by (auto simp: crawl_iter_def Let_def interval_def intro!: exI [of _ "evs @ [EvInterval]"])
  next
    case Continue
    with assms p v t q nv show ?thesis
      by (auto simp: crawl_iter_def Let_def)
  next
    case (Throw e)
    with assms p v t q nv show ?thesis
      by (auto simp: crawl_iter_def Let_def interval_def intro!: exI [of _ "evs @ [EvFailed u e, EvInterval]"])
  qed
qed

lemma crawl_inv_iter: "crawl_inv s \<Longrightarrow> crawl_inv (crawl_iter env ps s)"
proof (cases "queue s")
  case Nil
  then show "crawl_inv s \<Longrightarrow> crawl_inv (crawl_iter env ps s)" by (simp add: crawl_iter_def)
next
  case (Cons u q)
  assume inv: "crawl_inv s"
  show "crawl_inv (crawl_iter env ps s)"
  proof (cases "u \<in> visited s")
    case True
    from crawl_iter_visited [OF Cons True, of env ps] inv show ?thesis
      by (simp add: crawl_inv_def dequeue_def)
  next
    case False
    from crawl_iter_fresh [OF Cons False, of env ps] inv False show ?thesis
      by (auto simp: crawl_inv_def)
  qed
qed

lemma crawl_inv_turns: "crawl_inv s \<Longrightarrow> crawl_inv (crawl_turns env ps n s)"
  by (induction n arbitrary: s) (auto simp: crawl_inv_iter)

lemma crawl_inv_initial: "crawl_inv (initial_state ps w)"
  by (simp add: crawl_inv_def initial_state_def)

lemma crawl_loop_turns: "crawl_loop env ps n s = Some s1 \<Longrightarrow> s1 = crawl_turns env ps n s \<and> queue s1 = []"
  by (induction n arbitrary: s) (auto split: if_splits)

lemma crawl_result:
  assumes "crawl env ps fuel w = Some (Inr sf)"
  shows "\<exists>w2 w3. sf = emit EvClose ((crawl_turns env ps fuel (initial_state ps w2))\<lparr>world := w3\<rparr>)"
  using assms
  by (auto simp: crawl_def split: prod.splits option.splits dest!: crawl_loop_turns)

section \<open>The claims\<close>

text \<open>
  Claim C1 (at-most-once fetch). Take any environment, any parameters and the state \<open>s\<close>
  after any number of turns of the loop of \<^verbatim>\<open>crawl\<close> from its initial state. The URLs
  handed to \<^verbatim>\<open>request\<close> so far are pairwise distinct, and they are exactly the URLs
  added to the visited set, each added once. The next turn never shrinks the visited
  set; a dequeued URL that is already visited is dropped with no other effect than the
  dequeue, and any other dequeued URL is added to the visited set before \<^verbatim>\<open>request\<close> is
  called for it, that call being the only one of the turn. The log of a finished run of
  \<^verbatim>\<open>crawl\<close> holds no URL requested twice.
\<close>

theorem C1_at_most_once_fetch:
  "(let s = crawl_turns env ps n (initial_state ps w) in
      distinct (requests (trace s)) \<and>
      requests (trace s) = visits (trace s) \<and>
      set (visits (trace s)) = visited s \<and>
      visited s \<subseteq> visited (crawl_iter env ps s) \<and>
      (\<forall>u q. queue s = u # q \<and> u \<in> visited s \<longrightarrow>
             crawl_iter env ps s = dequeue u q s) \<and>
      (\<forall>u q. queue s = u # q \<and> u \<notin> visited s \<longrightarrow>
             visited (crawl_iter env ps s) = insert u (visited s) \<and>
             (\<exists>evs. trace (crawl_iter env ps s) = trace s @ [EvDequeue u, EvVisit u, EvRequest u] @ evs \<and>
                    requests evs = [] \<and> visits evs = []))) \<and>
   (\<forall>sf. crawl env ps n w = Some (Inr sf) \<longrightarrow> distinct (requests (trace sf)))"
proof -
  define s where "s = crawl_turns env ps n (initial_state ps w)"
  have inv: "crawl_inv s"
    unfolding s_def by (rule crawl_inv_turns [OF crawl_inv_initial])
  have mono: "visited s \<subseteq> visited (crawl_iter env ps s)"
  proof (cases "queue s")
    case Nil
    then show ?thesis by (simp add: crawl_iter_def)
  next
    case (Cons u q)
    then show ?thesis
      using crawl_iter_visited [OF Cons, of env ps] crawl_iter_fresh [OF Cons, of env ps]
      by (cases "u \<in> visited s") (auto simp: dequeue_def)
  qed
  have fin: "distinct (requests (trace sf))" if "crawl env ps n w = Some (Inr sf)" for sf
  proof -
    from crawl_result [OF that] obtain w2 w3
      where sf: "sf = emit EvClose ((crawl_turns env ps n (initial_state ps w2))\<lparr>world := w3\<rparr>)"
      by blast
    have "crawl_inv (crawl_turns env ps n (initial_state ps w2))"
      by (rule crawl_inv_turns [OF crawl_inv_initial])
    with sf show ?thesis by (simp add: crawl_inv_def)
  qed
  have seen: "crawl_iter env ps s = dequeue u q s"
    if "queue s = u # q \<and> u \<in> visited s" for u q
    using that by (simp add: crawl_iter_visited)
  have fresh: "visited (crawl_iter env ps s) = insert u (visited s) \<and>
         (\<exists>evs. trace (crawl_iter env ps s) = trace s @ [EvDequeue u, EvVisit u, EvRequest u] @ evs \<and>
                requests evs = [] \<and> visits evs = [])"
    if "queue s = u # q \<and> u \<notin> visited s" for u q
    using that crawl_iter_fresh [of s u q env ps] by blast
  from inv have "distinct (requests (trace s))" "requests (trace s) = visits (trace s)"
    "set (visits (trace s)) = visited s"
    by (simp_all add: crawl_inv_def)
  with mono fin seen fresh show ?thesis
    unfolding s_def [symmetric] Let_def by blast
qed

text \<open>
  On the small site: after one turn the image is at the head of the queue and not
  visited, and the next turn adds it; after three turns the second page is at the head
  for the second time, and the next turn only drops it.
\<close>

theorem C1_at_most_once_fetch_witness:
  "queue (crawl_turns (demo_env site1 []) demo_params 1 (initial_state demo_params w0))
     = [''http://h:80/a.png'', ''http://h:80/b'', ''http://h:80/b''] \<and>
   ''http://h:80/a.png'' \<notin> visited (crawl_turns (demo_env site1 []) demo_params 1 (initial_state demo_params w0)) \<and>
   visited (crawl_iter (demo_env site1 []) demo_params
              (crawl_turns (demo_env site1 []) demo_params 1 (initial_state demo_params w0)))
     = insert ''http://h:80/a.png'' (visited (crawl_turns (demo_env site1 []) demo_params 1 (initial_state demo_params w0))) \<and>
   queue (crawl_turns (demo_env site1 []) demo_params 3 (initial_state demo_params w0)) = [''http://h:80/b''] \<and>
   ''http://h:80/b'' \<in> visited (crawl_turns (demo_env site1 []) demo_params 3 (initial_state demo_params w0)) \<and>
   crawl_iter (demo_env site1 []) demo_params
       (crawl_turns (demo_env site1 []) demo_params 3 (initial_state demo_params w0))
     = dequeue ''http://h:80/b'' []
         (crawl_turns (demo_env site1 []) demo_params 3 (initial_state demo_params w0)) \<and>
   distinct (requests (trace (crawl_turns (demo_env site1 []) demo_params 3 (initial_state demo_params w0))))"
proof -
  let ?E = "demo_env site1 []"
  let ?s = "\<lambda>n. crawl_turns ?E demo_params n (initial_state demo_params w0)"
  have q1: "queue (?s 1) = [''http://h:80/a.png'', ''http://h:80/b'', ''http://h:80/b'']"
    by code_simp
  have v1: "''http://h:80/a.png'' \<notin> visited (?s 1)"
    by code_simp
  have q3: "queue (?s 3) = [''http://h:80/b'']"
    by code_simp
  have v3: "''http://h:80/b'' \<in> visited (?s 3)"
    by code_simp
  from C1_at_most_once_fetch [of ?E demo_params 1 w0] q1 v1
  have a: "visited (crawl_iter ?E demo_params (?s 1)) = insert ''http://h:80/a.png'' (visited (?s 1))"
    unfolding Let_def by blast
  from C1_at_most_once_fetch [of ?E demo_params 3 w0] q3 v3
  have b: "crawl_iter ?E demo_params (?s 3) = dequeue ''http://h:80/b'' [] (?s 3)"
    and c: "distinct (requests (trace (?s 3)))"
    unfolding Let_def by blast+
  from q1 v1 a q3 v3 b c show ?thesis by blast
qed

section \<open>Persistence\<close>

lemma createDirectories_eq:
  "createDirectories env base u s =
     (case fst (mkdirSync env (world s) (path_join env [base, directoryPath (splitUrl u)])) of
        Some e \<Rightarrow> Inl e | None \<Rightarrow> Inr (),
      emit (EvMkdir (path_join env [base, directoryPath (splitUrl u)]))
        (s\<lparr>world := snd (mkdirSync env (world s) (path_join env [base, directoryPath (splitUrl u)]))\<rparr>))"
  by (auto simp: createDirectories_def Let_def split: prod.splits option.splits)

lemma saveFile_eq:
  "saveFile env base u (Some b) s =
     (case fst (writeFileSync env (world s) (getFileFullPath env base u) b) of
        Some e \<Rightarrow> Inl e | None \<Rightarrow> Inr (),
      emit (EvWrite (getFileFullPath env base u) b)
        (s\<lparr>world := snd (writeFileSync env (world s) (getFileFullPath env base u) b)\<rparr>))"
  by (auto simp: saveFile_def Let_def split: prod.splits option.splits)

text \<open>
  Claim C6 (skip if the file exists), as amended. \<^verbatim>\<open>savePageContent\<close> first makes the
  directories, then asks whether the derived path exists. With \<open>overrides\<close> false and the
  path existing at that moment, the state after the call is the one \<^verbatim>\<open>mkdirSync\<close> left and
  no \<^verbatim>\<open>writeFileSync\<close> is called, whatever the content; the call raises what \<^verbatim>\<open>mkdirSync\<close>
  raised, and returns without error exactly when \<^verbatim>\<open>mkdirSync\<close> raised nothing.
\<close>

theorem C6_skip_if_exists:
  assumes "\<not> ov"
    and "existsSync env (snd (mkdirSync env (world s) (path_join env [base, directoryPath (splitUrl u)])))
           (getFileFullPath env base u)"
  shows "snd (savePageContent env c base u ov s) =
           emit (EvMkdir (path_join env [base, directoryPath (splitUrl u)]))
             (s\<lparr>world := snd (mkdirSync env (world s) (path_join env [base, directoryPath (splitUrl u)]))\<rparr>) \<and>
         (\<forall>p b. EvWrite p b \<notin> set (drop (length (trace s)) (trace (snd (savePageContent env c base u ov s))))) \<and>
         fst (savePageContent env c base u ov s) =
           (case fst (mkdirSync env (world s) (path_join env [base, directoryPath (splitUrl u)])) of
              Some e \<Rightarrow> Inl e
            | None \<Rightarrow> Inr ())"
  using assms
  by (auto simp: savePageContent_def createDirectories_eq existsFile_def split: option.splits)

text \<open>
  Claim C6 as it is written fails when the directory call raises although a file is at
  the derived path. For the URL \<^verbatim>\<open>http://h/a/..\<close> the directory is \<^verbatim>\<open>out/h/a\<close> and the derived
  path is \<^verbatim>\<open>out/h\<close>; on a disk where \<^verbatim>\<open>out/h\<close> is a regular file the path exists, \<^verbatim>\<open>mkdirSync\<close>
  raises, and so does the call, before the existence test is reached.
\<close>

theorem C6_existing_file_call_raises_counterexample:
  "getFileFullPath fs_env ''out'' ''http://h/a/..'' = ''out/h'' \<and>
   existsSync fs_env w_file (getFileFullPath fs_env ''out'' ''http://h/a/..'') \<and>
   fst (savePageContent fs_env (CBuffer [2, 3]) ''out'' ''http://h/a/..'' False (initial_state demo_params w_file))
     = Inl (FsError ''ENOTDIR'') \<and>
   trace (snd (savePageContent fs_env (CBuffer [2, 3]) ''out'' ''http://h/a/..'' False (initial_state demo_params w_file)))
     = [EvMkdir ''out/h/a'']"
  by code_simp

text \<open>
  On a disk that holds \<^verbatim>\<open>out/h/a.png\<close>: only the directory call, the file keeps its byte.
  On the disk where \<^verbatim>\<open>out/h\<close> is a regular file, for \<^verbatim>\<open>http://h/a/..\<close>: the call raises what
  \<^verbatim>\<open>mkdirSync\<close> raised.
\<close>

theorem C6_skip_if_exists_witness:
  "existsSync (demo_env site1 [])
      (snd (mkdirSync (demo_env site1 []) (world (initial_state demo_params w_saved))
              (path_join (demo_env site1 []) [''out'', directoryPath (splitUrl ''http://h/a.png'')])))
      (getFileFullPath (demo_env site1 []) ''out'' ''http://h/a.png'') \<and>
   fst (savePageContent (demo_env site1 []) (CBuffer [2, 3]) ''out'' ''http://h/a.png'' False (initial_state demo_params w_saved)) = Inr () \<and>
   trace (snd (savePageContent (demo_env site1 []) (CBuffer [2, 3]) ''out'' ''http://h/a.png'' False (initial_state demo_params w_saved)))
     = [EvMkdir ''out/h''] \<and>
   disk (world (snd (savePageContent (demo_env site1 []) (CBuffer [2, 3]) ''out'' ''http://h/a.png'' False (initial_state demo_params w_saved))))
     = [(''out/h/a.png'', [9])] \<and>
   fst (savePageContent fs_env (CBuffer [2, 3]) ''out'' ''http://h/a/..'' False (initial_state demo_params w_file))
     = Inl (FsError ''ENOTDIR'')"
proof -
  let ?E = "demo_env site1 []"
  let ?s = "initial_state demo_params w_saved"
  have w: "world ?s = w_saved" by (simp add: initial_state_def)
  have t: "trace ?s = []" by (simp add: initial_state_def)
  have d: "path_join ?E [''out'', directoryPath (splitUrl ''http://h/a.png'')] = ''out/h''"
    by code_simp
  have f: "getFileFullPath ?E ''out'' ''http://h/a.png'' = ''out/h/a.png''"
    by code_simp
  have m: "mkdirSync ?E w_saved ''out/h'' = (None, w_saved)"
    by (simp add: demo_env_def)
  have e: "existsSync ?E w_saved ''out/h/a.png''"
    by (simp add: demo_env_def w_saved_def)
  have k: "disk w_saved = [(''out/h/a.png'', [9])]"
    by (simp add: w_saved_def)
  have h1: "\<not> False" by simp
  have h2: "existsSync ?E (snd (mkdirSync ?E (world ?s)
              (path_join ?E [''out'', directoryPath (splitUrl ''http://h/a.png'')])))
              (getFileFullPath ?E ''out'' ''http://h/a.png'')"
    by (simp only: w d m f snd_conv e)
  note c = C6_skip_if_exists [OF h1 h2, where c = "CBuffer [2, 3]", unfolded w d m f snd_conv fst_conv t]
  from c have c1: "snd (savePageContent ?E (CBuffer [2, 3]) ''out'' ''http://h/a.png'' False ?s)
      = emit (EvMkdir ''out/h'') (?s\<lparr>world := w_saved\<rparr>)" by blast
  from c have c2: "fst (savePageContent ?E (CBuffer [2, 3]) ''out'' ''http://h/a.png'' False ?s) = Inr ()"
    by simp
  let ?t = "initial_state demo_params w_file"
  have g2: "existsSync fs_env (snd (mkdirSync fs_env (world ?t)
              (path_join fs_env [''out'', directoryPath (splitUrl ''http://h/a/..'')])))
              (getFileFullPath fs_env ''out'' ''http://h/a/..'')"
    by code_simp
  note r = C6_skip_if_exists [OF h1 g2, where c = "CBuffer [2, 3]", THEN conjunct2, THEN conjunct2]
  have r1: "(case fst (mkdirSync fs_env (world ?t)
                     (path_join fs_env [''out'', directoryPath (splitUrl ''http://h/a/..'')])) of
               Some e \<Rightarrow> Inl e
             | None \<Rightarrow> Inr ()) = (Inl (FsError ''ENOTDIR'') :: error + unit)"
    by code_simp
  have r2: "fst (savePageContent fs_env (CBuffer [2, 3]) ''out'' ''http://h/a/..'' False ?t)
              = Inl (FsError ''ENOTDIR'')"
    by (simp only: r r1)
  from h2 c2 r2 show ?thesis by (simp add: c1 t k)
qed





section \<open>The turn of the loop on a binary result and on a failure\<close>

lemma savePageContent_frame:
  assumes "savePageContent env c base p ov s = (r, s2)"
  shows "queue s2 = queue s \<and> (\<exists>evs. trace s2 = trace s @ evs \<and> list_all fs_event evs)"
  using savePageContent_extends [OF assms] by (simp add: extends_def)

lemma fs_event_not_extract: "list_all fs_event evs \<Longrightarrow> EvExtract t \<notin> set evs \<and> EvEnqueue l \<notin> set evs"
  by (induction evs) auto

lemma request_body:
  assumes "request env u ps s = (Inr result, s1)"
  shows "\<exists>b. body result = CBuffer b"
  using assms
  by (auto simp: request_def fill_result_def Let_def
           split: prod.splits sum.splits option.splits if_splits)

lemma savePageContent_write:
  assumes "fst (mkdirSync env (world s) (path_join env [base, directoryPath (splitUrl u)])) = None"
    and "ov \<or> \<not> existsSync env (snd (mkdirSync env (world s) (path_join env [base, directoryPath (splitUrl u)])))
                  (getFileFullPath env base u)"
  shows "savePageContent env (CBuffer b) base u ov s =
           (case fst (writeFileSync env
                        (snd (mkdirSync env (world s) (path_join env [base, directoryPath (splitUrl u)])))
                        (getFileFullPath env base u) b) of
              Some e \<Rightarrow> Inl e
            | None \<Rightarrow> Inr (),
            emit (EvWrite (getFileFullPath env base u) b)
              ((emit (EvMkdir (path_join env [base, directoryPath (splitUrl u)])) s)
                 \<lparr>world := snd (writeFileSync env
                        (snd (mkdirSync env (world s) (path_join env [base, directoryPath (splitUrl u)])))
                        (getFileFullPath env base u) b)\<rparr>))"
  using assms
  by (auto simp: savePageContent_def createDirectories_eq saveFile_eq existsFile_def emit_def)

lemma savePageContent_skip:
  assumes "fst (mkdirSync env (world s) (path_join env [base, directoryPath (splitUrl u)])) \<noteq> None \<or>
           (\<not> ov \<and> existsSync env (snd (mkdirSync env (world s) (path_join env [base, directoryPath (splitUrl u)])))
                      (getFileFullPath env base u))"
  shows "snd (savePageContent env c base u ov s) =
           emit (EvMkdir (path_join env [base, directoryPath (splitUrl u)]))
             (s\<lparr>world := snd (mkdirSync env (world s) (path_join env [base, directoryPath (splitUrl u)]))\<rparr>)"
  using assms
  by (auto simp: savePageContent_def createDirectories_eq existsFile_def split: option.splits)

lemma net_event_not_write: "list_all net_event evs \<Longrightarrow> EvWrite f b \<notin> set evs"
  by (induction evs) auto

text \<open>
  Claim C4 (binary short-circuit), as amended. Let the URL at the head of the queue be
  unvisited and let \<^verbatim>\<open>request\<close> return for it a result with status 200 marked binary.
  Then the log of the turn has no call of \<^verbatim>\<open>extractLinks\<close> and no enqueued link, the
  queue after the turn is the rest of the old queue, and the body is a \<^verbatim>\<open>Buffer\<close>. What
  is persisted: when the page URL decodes to \<open>p\<close>, \<^verbatim>\<open>mkdirSync\<close> raises nothing for the
  directory of \<open>p\<close>, and \<open>overrides\<close> is set or the derived path does not exist, the turn
  calls \<^verbatim>\<open>writeFileSync\<close> once, with the derived path and the bytes of the body, and leaves
  the world that call returned (when the call raises, the failure is logged and the turn
  paces). When \<^verbatim>\<open>mkdirSync\<close> raises, or \<open>overrides\<close> is not set and the path exists, and
  when \<^verbatim>\<open>decodeURIComponent\<close> raises, \<^verbatim>\<open>writeFileSync\<close> is not called in the turn.
\<close>

theorem C4_binary_short_circuit:
  fixes env :: "'w env"
  defines "sv u q s \<equiv> mark_visited u (dequeue u q s)"
  defines "s1 ps u q s \<equiv> snd (request env u ps (sv u q s))"
  defines "ov ps \<equiv> (case overrides ps of None \<Rightarrow> False | Some b \<Rightarrow> b)"
  defines "dir ps p \<equiv> path_join env [baseOutputDir ps, directoryPath (splitUrl p)]"
  defines "w1 ps u q s p \<equiv> snd (mkdirSync env (world (s1 ps u q s)) (dir ps p))"
  defines "file ps p \<equiv> getFileFullPath env (baseOutputDir ps) p"
  defines "new ps s \<equiv> drop (length (trace s)) (trace (crawl_iter env ps s))"
  assumes "queue s = u # q" and "u \<notin> visited s"
    and "fst (request env u ps (sv u q s)) = Inr result"
    and "status result = DEFAULT_HTTP_SUCCESS_STATUS_CODES" and "binary result"
  shows "queue (crawl_iter env ps s) = q \<and>
         (\<forall>t. EvExtract t \<notin> set (new ps s)) \<and>
         (\<forall>l. EvEnqueue l \<notin> set (new ps s)) \<and>
         (\<exists>b. body result = CBuffer b) \<and>
         (\<forall>p b. decodeURIComponent env (removePortFromUrl (page_url env (world (s1 ps u q s)))) = Inr p \<and>
                 body result = CBuffer b \<and>
                 fst (mkdirSync env (world (s1 ps u q s)) (dir ps p)) = None \<and>
                 (ov ps \<or> \<not> existsSync env (w1 ps u q s p) (file ps p)) \<longrightarrow>
            world (crawl_iter env ps s) = snd (writeFileSync env (w1 ps u q s p) (file ps p) b) \<and>
            trace (crawl_iter env ps s) =
              trace (s1 ps u q s) @ [EvSavePage (CBuffer b) p, EvMkdir (dir ps p), EvWrite (file ps p) b] @
              (case fst (writeFileSync env (w1 ps u q s p) (file ps p) b) of
                 Some e \<Rightarrow> [EvFailed u e, EvInterval]
               | None \<Rightarrow> [])) \<and>
         (\<forall>p. decodeURIComponent env (removePortFromUrl (page_url env (world (s1 ps u q s)))) = Inr p \<and>
               (fst (mkdirSync env (world (s1 ps u q s)) (dir ps p)) \<noteq> None \<or>
                (\<not> ov ps \<and> existsSync env (w1 ps u q s p) (file ps p))) \<longrightarrow>
            world (crawl_iter env ps s) = w1 ps u q s p \<and>
            (\<forall>f b. EvWrite f b \<notin> set (new ps s))) \<and>
         (\<forall>e. decodeURIComponent env (removePortFromUrl (page_url env (world (s1 ps u q s)))) = Inl e \<longrightarrow>
            world (crawl_iter env ps s) = world (s1 ps u q s) \<and>
            (\<forall>f b. EvWrite f b \<notin> set (new ps s)))"
proof -
  let ?dec = "decodeURIComponent env (removePortFromUrl (page_url env (world (s1 ps u q s))))"
  obtain r where r: "request env u ps (sv u q s) = (Inr result, s1 ps u q s)"
    using assms(10) unfolding s1_def by (cases "request env u ps (sv u q s)") auto
  have nv: "u \<notin> visited (dequeue u q s)"
    using assms(9) by (simp add: dequeue_def)
  from request_extends [OF r]
  obtain e1 where q1: "queue (s1 ps u q s) = q"
    and t1: "trace (s1 ps u q s) = trace s @ [EvDequeue u, EvVisit u, EvRequest u] @ e1"
    and a1: "list_all net_event e1"
    unfolding sv_def by (auto simp: extends_def mark_visited_def dequeue_def)
  have ne1: "EvExtract t \<notin> set e1 \<and> EvEnqueue l \<notin> set e1" for t l
    using a1 by (induction e1) auto
  have nw1: "EvWrite f b \<notin> set e1" for f b
    using a1 by (rule net_event_not_write)
  obtain b0 where bd: "body result = CBuffer b0"
    using request_body [OF r] by blast
  show ?thesis
  proof (cases ?dec)
    case (Inl e)
    have pu: "process_url env ps u (sv u q s) = (Throw e, s1 ps u q s)"
      using r assms(11) Inl by (simp add: process_url_def)
    have it: "crawl_iter env ps s = interval (emit (EvFailed u e) (s1 ps u q s))"
      using assms(8) nv pu unfolding sv_def by (simp add: crawl_iter_def Let_def)
    from it q1 t1 ne1 nw1 bd Inl show ?thesis
      unfolding new_def by (auto simp: interval_def)
  next
    case (Inr p)
    let ?s0 = "emit (EvSavePage (body result) p) (s1 ps u q s)"
    let ?sp = "savePageContent env (body result) (baseOutputDir ps) p (ov ps) ?s0"
    have pu: "process_url env ps u (sv u q s) =
                (case fst ?sp of Inl e \<Rightarrow> Throw e | Inr x \<Rightarrow> Continue, snd ?sp)"
      using r assms(11,12) Inr unfolding ov_def
      by (simp add: process_url_def split: sum.splits prod.splits)
    have it: "crawl_iter env ps s =
       (case fst ?sp of Inl e \<Rightarrow> interval (emit (EvFailed u e) (snd ?sp)) | Inr x \<Rightarrow> snd ?sp)"
      using assms(8) nv pu unfolding sv_def
      by (simp add: crawl_iter_def Let_def split: sum.splits)
    have w0: "world ?s0 = world (s1 ps u q s)" by simp
    show ?thesis
    proof (cases "fst (mkdirSync env (world (s1 ps u q s)) (dir ps p)) = None \<and>
                  (ov ps \<or> \<not> existsSync env (w1 ps u q s p) (file ps p))")
      case True
      then have m: "fst (mkdirSync env (world ?s0)
                      (path_join env [baseOutputDir ps, directoryPath (splitUrl p)])) = None"
        and x: "ov ps \<or> \<not> existsSync env (snd (mkdirSync env (world ?s0)
                      (path_join env [baseOutputDir ps, directoryPath (splitUrl p)])))
                      (getFileFullPath env (baseOutputDir ps) p)"
        unfolding w0 dir_def w1_def file_def by blast+
      note sw = savePageContent_write [OF m x, where b = b0, folded bd, unfolded w0,
                  folded dir_def, folded w1_def file_def]
      have wd: "world (crawl_iter env ps s) = snd (writeFileSync env (w1 ps u q s p) (file ps p) b0)"
        unfolding it sw by (simp add: interval_def split: option.splits)
      have tr: "trace (crawl_iter env ps s) =
              trace (s1 ps u q s) @ [EvSavePage (CBuffer b0) p, EvMkdir (dir ps p), EvWrite (file ps p) b0] @
              (case fst (writeFileSync env (w1 ps u q s p) (file ps p) b0) of
                 Some e \<Rightarrow> [EvFailed u e, EvInterval]
               | None \<Rightarrow> [])"
        unfolding it sw by (simp add: interval_def bd split: option.splits)
      have qu: "queue (crawl_iter env ps s) = q"
        unfolding it sw by (simp add: interval_def q1 split: option.splits)
      have nx: "EvExtract t \<notin> set (new ps s) \<and> EvEnqueue l \<notin> set (new ps s)" for t l
        unfolding new_def tr t1 using ne1 by (auto split: option.splits)
      from True Inr bd wd tr qu nx show ?thesis by auto
    next
      case False
      then have k: "fst (mkdirSync env (world ?s0)
                      (path_join env [baseOutputDir ps, directoryPath (splitUrl p)])) \<noteq> None \<or>
                    (\<not> ov ps \<and> existsSync env (snd (mkdirSync env (world ?s0)
                      (path_join env [baseOutputDir ps, directoryPath (splitUrl p)])))
                      (getFileFullPath env (baseOutputDir ps) p))"
        unfolding w0 dir_def w1_def file_def by auto
      note sk = savePageContent_skip [OF k, where c = "body result", unfolded w0,
                  folded dir_def, folded w1_def]
      have wd: "world (crawl_iter env ps s) = w1 ps u q s p"
        unfolding it sk by (simp add: interval_def split: sum.splits)
      have tr: "\<exists>tl. trace (crawl_iter env ps s) =
              trace (s1 ps u q s) @ [EvSavePage (body result) p, EvMkdir (dir ps p)] @ tl \<and>
              (tl = [] \<or> (\<exists>e. tl = [EvFailed u e, EvInterval]))"
        unfolding it sk by (simp add: interval_def split: sum.splits)
      have qu: "queue (crawl_iter env ps s) = q"
        unfolding it sk by (simp add: interval_def q1 split: sum.splits)
      have nx: "EvExtract t \<notin> set (new ps s) \<and> EvEnqueue l \<notin> set (new ps s) \<and>
                EvWrite f b \<notin> set (new ps s)" for t l f b
        using tr ne1 nw1 unfolding new_def t1 by auto
      from False Inr bd wd qu nx show ?thesis by auto
    qed
  qed
qed

text \<open>
  Claim C4 as it is written fails in three ways, each on an image served as \<^verbatim>\<open>image/png\<close>
  with status 200 that \<^verbatim>\<open>request\<close> marks binary, at the head of the loop of a run that
  starts at the image. The page URL \<^verbatim>\<open>http://h/caf%E9.png\<close> makes
  \<^verbatim>\<open>decodeURIComponent\<close> raise before \<^verbatim>\<open>savePageContent\<close> is called. With \<open>overrides\<close> not
  set and \<^verbatim>\<open>out/h/a.png\<close> on the disk, the file keeps its old byte. With the regular file
  \<^verbatim>\<open>out/h\<close> in the place of the directory, \<^verbatim>\<open>mkdirSync\<close> raises. No turn writes the body.
\<close>

theorem C4_binary_body_not_persisted_counterexample:
  "fst (request decode_env ''http://h:80/caf%E9.png'' demo_params (mark_visited ''http://h:80/caf%E9.png'' (dequeue ''http://h:80/caf%E9.png'' [] ((initial_state demo_params w0)\<lparr>queue := [''http://h:80/caf%E9.png'']\<rparr>))))
     = Inr \<lparr> status = 200, headers = Some [(''content-type'', ''image/png'')], body = CBuffer [5],
             text_of = Some [], binary = True, url = ''http://h:80/caf%E9.png'' \<rparr> \<and>
   trace (crawl_iter decode_env demo_params ((initial_state demo_params w0)\<lparr>queue := [''http://h:80/caf%E9.png'']\<rparr>))
     = [EvDequeue ''http://h:80/caf%E9.png'', EvVisit ''http://h:80/caf%E9.png'', EvRequest ''http://h:80/caf%E9.png'', EvGoto ''http://h:80/caf%E9.png'', EvFetch ''http://h:80/caf%E9.png'',
        EvFailed ''http://h:80/caf%E9.png'' (URIError ''URI malformed''), EvInterval] \<and>
   disk (world (crawl_iter decode_env demo_params ((initial_state demo_params w0)\<lparr>queue := [''http://h:80/caf%E9.png'']\<rparr>))) = [] \<and>
   fst (request (demo_env site1 []) ''http://h:80/a.png'' demo_params (mark_visited ''http://h:80/a.png'' (dequeue ''http://h:80/a.png'' [] ((initial_state demo_params w_saved)\<lparr>queue := [''http://h:80/a.png'']\<rparr>))))
     = Inr \<lparr> status = 200, headers = Some [(''content-type'', ''image/png'')], body = CBuffer [2, 3],
             text_of = Some [], binary = True, url = ''http://h:80/a.png'' \<rparr> \<and>
   trace (crawl_iter (demo_env site1 []) demo_params ((initial_state demo_params w_saved)\<lparr>queue := [''http://h:80/a.png'']\<rparr>))
     = [EvDequeue ''http://h:80/a.png'', EvVisit ''http://h:80/a.png'', EvRequest ''http://h:80/a.png'', EvGoto ''http://h:80/a.png'', EvFetch ''http://h:80/a.png'',
        EvSavePage (CBuffer [2, 3]) ''http://h/a.png'', EvMkdir ''out/h''] \<and>
   disk (world (crawl_iter (demo_env site1 []) demo_params ((initial_state demo_params w_saved)\<lparr>queue := [''http://h:80/a.png'']\<rparr>))) = [(''out/h/a.png'', [9])] \<and>
   fst (request fs_env ''http://h:80/a.png'' demo_params (mark_visited ''http://h:80/a.png'' (dequeue ''http://h:80/a.png'' [] ((initial_state demo_params w_file)\<lparr>queue := [''http://h:80/a.png'']\<rparr>))))
     = Inr \<lparr> status = 200, headers = Some [(''content-type'', ''image/png'')], body = CBuffer [2, 3],
             text_of = Some [], binary = True, url = ''http://h:80/a.png'' \<rparr> \<and>
   trace (crawl_iter fs_env demo_params ((initial_state demo_params w_file)\<lparr>queue := [''http://h:80/a.png'']\<rparr>))
     = [EvDequeue ''http://h:80/a.png'', EvVisit ''http://h:80/a.png'', EvRequest ''http://h:80/a.png'', EvGoto ''http://h:80/a.png'', EvFetch ''http://h:80/a.png'',
        EvSavePage (CBuffer [2, 3]) ''http://h/a.png'', EvMkdir ''out/h'',
        EvFailed ''http://h:80/a.png'' (FsError ''EEXIST''), EvInterval] \<and>
   disk (world (crawl_iter fs_env demo_params ((initial_state demo_params w_file)\<lparr>queue := [''http://h:80/a.png'']\<rparr>))) = [(''out/h'', [9])]"
  by code_simp

text \<open>
  On the small site: the image \<^verbatim>\<open>http://h:80/a.png\<close> is binary and its two bytes are
  written to \<^verbatim>\<open>out/h/a.png\<close> on the empty disk; on the disk that holds that file nothing is
  written; and for the URL that cannot be decoded nothing is written either.
\<close>

theorem C4_binary_short_circuit_witness:
  "queue ((initial_state demo_params w0)\<lparr>queue := [''http://h:80/a.png'']\<rparr>) = [''http://h:80/a.png''] \<and>
   ''http://h:80/a.png'' \<notin> visited ((initial_state demo_params w0)\<lparr>queue := [''http://h:80/a.png'']\<rparr>) \<and>
   fst (request (demo_env site1 []) ''http://h:80/a.png'' demo_params (mark_visited ''http://h:80/a.png'' (dequeue ''http://h:80/a.png'' [] ((initial_state demo_params w0)\<lparr>queue := [''http://h:80/a.png'']\<rparr>))))
     = Inr \<lparr> status = 200, headers = Some [(''content-type'', ''image/png'')], body = CBuffer [2, 3],
             text_of = Some [], binary = True, url = ''http://h:80/a.png'' \<rparr> \<and>
   queue (crawl_iter (demo_env site1 []) demo_params ((initial_state demo_params w0)\<lparr>queue := [''http://h:80/a.png'']\<rparr>)) = [] \<and>
   disk (world (crawl_iter (demo_env site1 []) demo_params ((initial_state demo_params w0)\<lparr>queue := [''http://h:80/a.png'']\<rparr>))) = [(''out/h/a.png'', [2, 3])] \<and>
   trace (crawl_iter (demo_env site1 []) demo_params ((initial_state demo_params w0)\<lparr>queue := [''http://h:80/a.png'']\<rparr>))
     = [EvDequeue ''http://h:80/a.png'', EvVisit ''http://h:80/a.png'', EvRequest ''http://h:80/a.png'', EvGoto ''http://h:80/a.png'', EvFetch ''http://h:80/a.png'',
        EvSavePage (CBuffer [2, 3]) ''http://h/a.png'', EvMkdir ''out/h'', EvWrite ''out/h/a.png'' [2, 3]] \<and>
   disk (world (crawl_iter (demo_env site1 []) demo_params ((initial_state demo_params w_saved)\<lparr>queue := [''http://h:80/a.png'']\<rparr>))) = [(''out/h/a.png'', [9])] \<and>
   (\<forall>f b. EvWrite f b \<notin> set (drop (length (trace ((initial_state demo_params w_saved)\<lparr>queue := [''http://h:80/a.png'']\<rparr>))) (trace (crawl_iter (demo_env site1 []) demo_params ((initial_state demo_params w_saved)\<lparr>queue := [''http://h:80/a.png'']\<rparr>))))) \<and>
   disk (world (crawl_iter decode_env demo_params ((initial_state demo_params w0)\<lparr>queue := [''http://h:80/caf%E9.png'']\<rparr>))) = [] \<and>
   (\<forall>f b. EvWrite f b \<notin> set (drop (length (trace ((initial_state demo_params w0)\<lparr>queue := [''http://h:80/caf%E9.png'']\<rparr>))) (trace (crawl_iter decode_env demo_params ((initial_state demo_params w0)\<lparr>queue := [''http://h:80/caf%E9.png'']\<rparr>)))))"
proof -
  let ?E = "demo_env site1 []"
  let ?u = "''http://h:80/a.png''"
  let ?v = "''http://h:80/caf%E9.png''"
  let ?p = "''http://h/a.png''"
  let ?s = "((initial_state demo_params w0)\<lparr>queue := [''http://h:80/a.png'']\<rparr>)"
  let ?t = "((initial_state demo_params w_saved)\<lparr>queue := [''http://h:80/a.png'']\<rparr>)"
  let ?r = "((initial_state demo_params w0)\<lparr>queue := [''http://h:80/caf%E9.png'']\<rparr>)"
  let ?res = "\<lparr> status = 200, headers = Some [(''content-type'', ''image/png'')], body = CBuffer [2, 3],
             text_of = Some [], binary = True, url = ?u \<rparr>"
  let ?rev = "\<lparr> status = 200, headers = Some [(''content-type'', ''image/png'')], body = CBuffer [5],
             text_of = Some [], binary = True, url = ?v \<rparr>"
  let ?ov = "case overrides demo_params of None \<Rightarrow> False | Some b \<Rightarrow> b"
  let ?dir = "path_join ?E [baseOutputDir demo_params, directoryPath (splitUrl ?p)]"
  let ?file = "getFileFullPath ?E (baseOutputDir demo_params) ?p"
  txt \<open>The image on the empty disk.\<close>
  let ?s1 = "snd (request ?E ?u demo_params (mark_visited ?u (dequeue ?u [] ?s)))"
  let ?w1 = "snd (mkdirSync ?E (world ?s1) ?dir)"
  have h1: "queue ?s = [?u]" by simp
  have h2: "?u \<notin> visited ?s" by (simp add: initial_state_def)
  have h3: "fst (request ?E ?u demo_params (mark_visited ?u (dequeue ?u [] ?s))) = Inr ?res"
    by code_simp
  have h4: "status ?res = DEFAULT_HTTP_SUCCESS_STATUS_CODES"
    by (simp add: DEFAULT_HTTP_SUCCESS_STATUS_CODES_def)
  have h5: "binary ?res" by simp
  have d1: "decodeURIComponent ?E (removePortFromUrl (page_url ?E (world ?s1))) = Inr ?p"
    by code_simp
  have d2: "body ?res = CBuffer [2, 3]" by simp
  have d3: "fst (mkdirSync ?E (world ?s1) ?dir) = None"
    by (simp add: demo_env_def)
  have d4: "?ov \<or> \<not> existsSync ?E ?w1 ?file"
    by code_simp
  note c = C4_binary_short_circuit [OF h1 h2 h3 h4 h5]
  note c1 = c [THEN conjunct1]
  note c5 = c [THEN conjunct2, THEN conjunct2, THEN conjunct2, THEN conjunct2, THEN conjunct1,
               rule_format, OF conjI [OF d1 conjI [OF d2 conjI [OF d3 d4]]]]
  have e1: "disk (snd (writeFileSync ?E ?w1 ?file [2, 3])) = [(''out/h/a.png'', [2, 3])]"
    by code_simp
  have e2: "trace ?s1 @ [EvSavePage (CBuffer [2, 3]) ?p, EvMkdir ?dir, EvWrite ?file [2, 3]] @
              (case fst (writeFileSync ?E ?w1 ?file [2, 3]) of
                 Some e \<Rightarrow> [EvFailed ?u e, EvInterval]
               | None \<Rightarrow> [])
            = [EvDequeue ''http://h:80/a.png'', EvVisit ''http://h:80/a.png'', EvRequest ''http://h:80/a.png'', EvGoto ''http://h:80/a.png'', EvFetch ''http://h:80/a.png'',
               EvSavePage (CBuffer [2, 3]) ''http://h/a.png'', EvMkdir ''out/h'', EvWrite ''out/h/a.png'' [2, 3]]"
    by code_simp
  have a1: "disk (world (crawl_iter ?E demo_params ?s)) = [(''out/h/a.png'', [2, 3])]"
    by (simp only: c5 [THEN conjunct1] e1)
  have a2: "trace (crawl_iter ?E demo_params ?s)
     = [EvDequeue ''http://h:80/a.png'', EvVisit ''http://h:80/a.png'', EvRequest ''http://h:80/a.png'', EvGoto ''http://h:80/a.png'', EvFetch ''http://h:80/a.png'',
        EvSavePage (CBuffer [2, 3]) ''http://h/a.png'', EvMkdir ''out/h'', EvWrite ''out/h/a.png'' [2, 3]]"
    by (simp only: c5 [THEN conjunct2] e2)
  txt \<open>The image on the disk that holds its file.\<close>
  let ?t1 = "snd (request ?E ?u demo_params (mark_visited ?u (dequeue ?u [] ?t)))"
  let ?x1 = "snd (mkdirSync ?E (world ?t1) ?dir)"
  have k1: "queue ?t = [?u]" by simp
  have k2: "?u \<notin> visited ?t" by (simp add: initial_state_def)
  have k3: "fst (request ?E ?u demo_params (mark_visited ?u (dequeue ?u [] ?t))) = Inr ?res"
    by code_simp
  have l1: "decodeURIComponent ?E (removePortFromUrl (page_url ?E (world ?t1))) = Inr ?p"
    by code_simp
  have l2: "fst (mkdirSync ?E (world ?t1) ?dir) \<noteq> None \<or> (\<not> ?ov \<and> existsSync ?E ?x1 ?file)"
    by code_simp
  note g = C4_binary_short_circuit [OF k1 k2 k3 h4 h5, THEN conjunct2, THEN conjunct2, THEN conjunct2,
             THEN conjunct2, THEN conjunct2, THEN conjunct1, rule_format, OF conjI [OF l1 l2]]
  have e3: "disk ?x1 = [(''out/h/a.png'', [9])]"
    by code_simp
  have b1: "disk (world (crawl_iter ?E demo_params ?t)) = [(''out/h/a.png'', [9])]"
    by (simp only: g [THEN conjunct1] e3)
  note b2 = g [THEN conjunct2]
  txt \<open>The image whose URL cannot be decoded.\<close>
  let ?r1 = "snd (request decode_env ?v demo_params (mark_visited ?v (dequeue ?v [] ?r)))"
  have m1: "queue ?r = [?v]" by simp
  have m2: "?v \<notin> visited ?r" by (simp add: initial_state_def)
  have m3: "fst (request decode_env ?v demo_params (mark_visited ?v (dequeue ?v [] ?r))) = Inr ?rev"
    by code_simp
  have m4: "status ?rev = DEFAULT_HTTP_SUCCESS_STATUS_CODES"
    by (simp add: DEFAULT_HTTP_SUCCESS_STATUS_CODES_def)
  have m5: "binary ?rev" by simp
  have n1: "decodeURIComponent decode_env (removePortFromUrl (page_url decode_env (world ?r1)))
            = Inl (URIError ''URI malformed'')"
    by code_simp
  note f = C4_binary_short_circuit [OF m1 m2 m3 m4 m5, THEN conjunct2, THEN conjunct2, THEN conjunct2,
             THEN conjunct2, THEN conjunct2, THEN conjunct2, rule_format, OF n1]
  have e4: "disk (world ?r1) = []"
    by code_simp
  have o1: "disk (world (crawl_iter decode_env demo_params ?r)) = []"
    by (simp only: f [THEN conjunct1] e4)
  note o2 = f [THEN conjunct2]
  from h1 h2 h3 c1 a1 a2 b1 b2 o1 o2 show ?thesis
    by (intro conjI) assumption+
qed

lemma savePageContent_raises:
  "fst (savePageContent env c base u ov s) = Inl e \<longleftrightarrow>
     fst (mkdirSync env (world s) (path_join env [base, directoryPath (splitUrl u)])) = Some e \<or>
     (fst (mkdirSync env (world s) (path_join env [base, directoryPath (splitUrl u)])) = None \<and>
      (ov \<or> \<not> existsSync env (snd (mkdirSync env (world s) (path_join env [base, directoryPath (splitUrl u)])))
                 (getFileFullPath env base u)) \<and>
      c \<noteq> CNull \<and>
      fst (writeFileSync env (snd (mkdirSync env (world s) (path_join env [base, directoryPath (splitUrl u)])))
             (getFileFullPath env base u)
             (case c of CString t \<Rightarrow> utf8 env t | CBuffer b \<Rightarrow> b | CNull \<Rightarrow> [] | CUndefined \<Rightarrow> [])) = Some e)"
  by (auto simp: savePageContent_def createDirectories_eq saveFile_eq existsFile_def Let_def
           split: option.splits)

text \<open>
  Claim C3, as amended. For an unvisited URL at the head of the queue: when \<^verbatim>\<open>request\<close>
  raises, the turn logs the failure, paces, and leaves the rest of the queue to the next
  turn; when \<^verbatim>\<open>savePageContent\<close> raises (\<open>savePageContent_raises\<close>: what \<^verbatim>\<open>mkdirSync\<close> or
  \<^verbatim>\<open>writeFileSync\<close> raised) for a result with status 200, the turn does exactly the same.
\<close>

theorem C3_failures_are_caught:
  fixes env :: "'w env"
  defines "sv u q s \<equiv> mark_visited u (dequeue u q s)"
  defines "s1 ps u q s \<equiv> snd (request env u ps (sv u q s))"
  defines "sp ps u q s result p \<equiv>
     savePageContent env (body result) (baseOutputDir ps) p
        (case overrides ps of None \<Rightarrow> False | Some b \<Rightarrow> b)
        (emit (EvSavePage (body result) p) (s1 ps u q s))"
  assumes "queue s = u # q" and "u \<notin> visited s"
  shows "(\<forall>e. fst (request env u ps (sv u q s)) = Inl e \<longrightarrow>
             crawl_iter env ps s = interval (emit (EvFailed u e) (s1 ps u q s)) \<and>
             queue (crawl_iter env ps s) = q) \<and>
         (\<forall>result p e.
             fst (request env u ps (sv u q s)) = Inr result \<and>
             status result = DEFAULT_HTTP_SUCCESS_STATUS_CODES \<and>
             decodeURIComponent env (removePortFromUrl (page_url env (world (s1 ps u q s)))) = Inr p \<and>
             fst (sp ps u q s result p) = Inl e \<longrightarrow>
             crawl_iter env ps s = interval (emit (EvFailed u e) (snd (sp ps u q s result p))) \<and>
             queue (crawl_iter env ps s) = q)"
proof -
  have nv: "u \<notin> visited (dequeue u q s)"
    using assms(5) by (simp add: dequeue_def)
  have a: "crawl_iter env ps s = interval (emit (EvFailed u e) (s1 ps u q s)) \<and>
           queue (crawl_iter env ps s) = q"
    if f: "fst (request env u ps (sv u q s)) = Inl e" for e
  proof -
    have r: "request env u ps (sv u q s) = (Inl e, s1 ps u q s)"
      using f unfolding s1_def by (cases "request env u ps (sv u q s)") auto
    have pu: "process_url env ps u (sv u q s) = (Throw e, s1 ps u q s)"
      using r by (simp add: process_url_def)
    have it: "crawl_iter env ps s = interval (emit (EvFailed u e) (s1 ps u q s))"
      using assms(4) nv pu unfolding sv_def by (simp add: crawl_iter_def Let_def)
    from request_extends [OF r] have "queue (s1 ps u q s) = q"
      unfolding sv_def by (simp add: extends_def mark_visited_def dequeue_def)
    with it show ?thesis by (simp add: interval_def)
  qed
  have b: "crawl_iter env ps s = interval (emit (EvFailed u e) (snd (sp ps u q s result p))) \<and>
           queue (crawl_iter env ps s) = q"
    if f: "fst (request env u ps (sv u q s)) = Inr result \<and>
           status result = DEFAULT_HTTP_SUCCESS_STATUS_CODES \<and>
           decodeURIComponent env (removePortFromUrl (page_url env (world (s1 ps u q s)))) = Inr p \<and>
           fst (sp ps u q s result p) = Inl e" for result p e
  proof -
    have r: "request env u ps (sv u q s) = (Inr result, s1 ps u q s)"
      using f unfolding s1_def by (cases "request env u ps (sv u q s)") auto
    obtain s2 where sp: "sp ps u q s result p = (Inl e, s2)"
      using f by (cases "sp ps u q s result p") auto
    have pu: "process_url env ps u (sv u q s) = (Throw e, s2)"
      using r f sp unfolding sp_def by (simp add: process_url_def)
    have it: "crawl_iter env ps s = interval (emit (EvFailed u e) s2)"
      using assms(4) nv pu unfolding sv_def by (simp add: crawl_iter_def Let_def)
    from request_extends [OF r] have "queue (s1 ps u q s) = q"
      unfolding sv_def by (simp add: extends_def mark_visited_def dequeue_def)
    with savePageContent_frame [OF sp [unfolded sp_def]]
    have "queue s2 = q" by simp
    with it sp show ?thesis by (simp add: interval_def)
  qed
  show ?thesis
  proof (intro conjI allI impI)
    fix e assume "fst (request env u ps (sv u q s)) = Inl e"
    from a [OF this]
    show "crawl_iter env ps s = interval (emit (EvFailed u e) (s1 ps u q s))"
      and "queue (crawl_iter env ps s) = q" by blast+
  next
    fix result p e
    assume "fst (request env u ps (sv u q s)) = Inr result \<and>
            status result = DEFAULT_HTTP_SUCCESS_STATUS_CODES \<and>
            decodeURIComponent env (removePortFromUrl (page_url env (world (s1 ps u q s)))) = Inr p \<and>
            fst (sp ps u q s result p) = Inl e"
    from b [OF this]
    show "crawl_iter env ps s = interval (emit (EvFailed u e) (snd (sp ps u q s result p)))"
      and "queue (crawl_iter env ps s) = q" by blast+
  qed
qed

text \<open>
  Claim C3 as stated fails: with \<^verbatim>\<open>out/h/a.png\<close> not writable, \<^verbatim>\<open>writeFileSync\<close> raises while
  the image is persisted; \<^verbatim>\<open>crawl\<close> logs it, paces, goes on to the next page and returns
  normally.
\<close>

theorem C3_persistence_error_propagates_counterexample:
  "map_option (map_sum id trace) (crawl (demo_env site1 [''out/h/a.png'']) demo_params 4 w0) =
     Some (Inr
       [EvDequeue ''http://h:80/'', EvVisit ''http://h:80/'', EvRequest ''http://h:80/'',
        EvGoto ''http://h:80/'', EvSavePage (CBuffer [1]) ''http://h/'', EvMkdir ''out/h'',
        EvWrite ''out/h/index'' [1], EvExtract ''<a href='a.png'><a href='b'><a href='b'>'',
        EvEnqueue ''http://h:80/a.png'', EvEnqueue ''http://h:80/b'', EvEnqueue ''http://h:80/b'',
        EvInterval,
        EvDequeue ''http://h:80/a.png'', EvVisit ''http://h:80/a.png'', EvRequest ''http://h:80/a.png'',
        EvGoto ''http://h:80/a.png'', EvFetch ''http://h:80/a.png'',
        EvSavePage (CBuffer [2, 3]) ''http://h/a.png'', EvMkdir ''out/h'',
        EvWrite ''out/h/a.png'' [2, 3], EvFailed ''http://h:80/a.png'' (FsError ''EACCES''),
        EvInterval,
        EvDequeue ''http://h:80/b'', EvVisit ''http://h:80/b'', EvRequest ''http://h:80/b'',
        EvGoto ''http://h:80/b'', EvSavePage (CBuffer []) ''http://h/b'', EvMkdir ''out/h'',
        EvWrite ''out/h/b'' [], EvExtract [], EvInterval,
        EvDequeue ''http://h:80/b'', EvClose])"
  by code_simp

text \<open>
  The two cases at concrete inputs: the write of the image fails; a URL the site does
  not serve makes \<^verbatim>\<open>page.goto\<close> raise.
\<close>

theorem C3_failures_are_caught_witness:
  "queue (crawl_turns (demo_env site1 [''out/h/a.png'']) demo_params 1 (initial_state demo_params w0))
     = ''http://h:80/a.png'' # [''http://h:80/b'', ''http://h:80/b''] \<and>
   ''http://h:80/a.png'' \<notin> visited (crawl_turns (demo_env site1 [''out/h/a.png'']) demo_params 1 (initial_state demo_params w0)) \<and>
   fst (savePageContent (demo_env site1 [''out/h/a.png'']) (CBuffer [2, 3]) (baseOutputDir demo_params) ''http://h/a.png''
          (case overrides demo_params of None \<Rightarrow> False | Some b \<Rightarrow> b)
          (emit (EvSavePage (CBuffer [2, 3]) ''http://h/a.png'')
             (snd (request (demo_env site1 [''out/h/a.png'']) ''http://h:80/a.png'' demo_params
                (mark_visited ''http://h:80/a.png'' (dequeue ''http://h:80/a.png'' [''http://h:80/b'', ''http://h:80/b'']
                   (crawl_turns (demo_env site1 [''out/h/a.png'']) demo_params 1 (initial_state demo_params w0))))))))
     = Inl (FsError ''EACCES'') \<and>
   queue (crawl_iter (demo_env site1 [''out/h/a.png'']) demo_params
            (crawl_turns (demo_env site1 [''out/h/a.png'']) demo_params 1 (initial_state demo_params w0)))
     = [''http://h:80/b'', ''http://h:80/b''] \<and>
   fst (request (demo_env site1 []) ''http://h:80/x'' demo_params
          (mark_visited ''http://h:80/x'' (dequeue ''http://h:80/x'' []
             ((initial_state demo_params w0)\<lparr>queue := [''http://h:80/x'']\<rparr>))))
     = Inl (BrowserError ''net::ERR_FAILED'') \<and>
   queue (crawl_iter (demo_env site1 []) demo_params ((initial_state demo_params w0)\<lparr>queue := [''http://h:80/x'']\<rparr>)) = []"
proof -
  let ?E = "demo_env site1 [''out/h/a.png'']"
  let ?s = "crawl_turns ?E demo_params 1 (initial_state demo_params w0)"
  let ?u = "''http://h:80/a.png''"
  let ?q = "[''http://h:80/b'', ''http://h:80/b'']"
  let ?res = "\<lparr> status = 200, headers = Some [(''content-type'', ''image/png'')], body = CBuffer [2, 3],
             text_of = Some [], binary = True, url = ?u \<rparr>"
  have h1: "queue ?s = ?u # ?q" by code_simp
  have h2: "?u \<notin> visited ?s" by code_simp
  have f1: "fst (request ?E ?u demo_params (mark_visited ?u (dequeue ?u ?q ?s))) = Inr ?res"
    by code_simp
  have f2: "status ?res = DEFAULT_HTTP_SUCCESS_STATUS_CODES"
    by (simp add: DEFAULT_HTTP_SUCCESS_STATUS_CODES_def)
  have f3: "decodeURIComponent ?E (removePortFromUrl (page_url ?E
              (world (snd (request ?E ?u demo_params (mark_visited ?u (dequeue ?u ?q ?s)))))))
            = Inr ''http://h/a.png''"
    by code_simp
  have f4: "fst (savePageContent ?E (body ?res) (baseOutputDir demo_params) ''http://h/a.png''
          (case overrides demo_params of None \<Rightarrow> False | Some b \<Rightarrow> b)
          (emit (EvSavePage (body ?res) ''http://h/a.png'')
             (snd (request ?E ?u demo_params (mark_visited ?u (dequeue ?u ?q ?s))))))
     = Inl (FsError ''EACCES'')"
    by code_simp
  note b = C3_failures_are_caught [OF h1 h2, THEN conjunct2, rule_format,
      OF conjI [OF f1 conjI [OF f2 conjI [OF f3 f4]]]]
  from b have b1: "queue (crawl_iter ?E demo_params ?s) = ?q" by blast
  let ?F = "demo_env site1 []"
  let ?x = "''http://h:80/x''"
  let ?sx = "(initial_state demo_params w0)\<lparr>queue := [?x]\<rparr>"
  have g1: "queue ?sx = ?x # []" by simp
  have g2: "?x \<notin> visited ?sx" by (simp add: initial_state_def)
  have g3: "fst (request ?F ?x demo_params (mark_visited ?x (dequeue ?x [] ?sx)))
      = Inl (BrowserError ''net::ERR_FAILED'')"
    by code_simp
  note a = C3_failures_are_caught [OF g1 g2, THEN conjunct1, rule_format, OF g3]
  from a have a1: "queue (crawl_iter ?F demo_params ?sx) = []" by blast
  from f4 have f4': "fst (savePageContent ?E (CBuffer [2, 3]) (baseOutputDir demo_params) ''http://h/a.png''
          (case overrides demo_params of None \<Rightarrow> False | Some b \<Rightarrow> b)
          (emit (EvSavePage (CBuffer [2, 3]) ''http://h/a.png'')
             (snd (request ?E ?u demo_params (mark_visited ?u (dequeue ?u ?q ?s))))))
     = Inl (FsError ''EACCES'')" by simp
  from h1 h2 f4' b1 g3 a1 show ?thesis by (intro conjI) assumption+
qed

lemma inner_no_interval: "list_all inner_event evs \<Longrightarrow> EvInterval \<notin> set evs"
  by (induction evs) auto

text \<open>
  The pacing of a turn that processes a URL: \<^verbatim>\<open>interval\<close> is the last call of the turn
  unless the body of the \<^verbatim>\<open>try\<close> block ended with \<^verbatim>\<open>continue\<close>, and then the turn does not
  call it at all.
\<close>

lemma turn_paces_unless_continue:
  assumes "queue s = u # q" and "u \<notin> visited s"
  shows "(fst (process_url env ps u (mark_visited u (dequeue u q s))) \<noteq> Continue \<longrightarrow>
            trace (crawl_iter env ps s) \<noteq> [] \<and> last (trace (crawl_iter env ps s)) = EvInterval) \<and>
         (fst (process_url env ps u (mark_visited u (dequeue u q s))) = Continue \<longrightarrow>
            EvInterval \<notin> set (drop (length (trace s)) (trace (crawl_iter env ps s))))"
proof -
  let ?s1 = "mark_visited u (dequeue u q s)"
  obtain out s2 where p: "process_url env ps u ?s1 = (out, s2)"
    by (cases "process_url env ps u ?s1")
  have nv: "u \<notin> visited (dequeue u q s)"
    using assms(2) by (simp add: dequeue_def)
  from process_url_frame [OF p]
  obtain evs where t: "trace s2 = trace s @ [EvDequeue u, EvVisit u, EvRequest u] @ evs"
    and a: "list_all inner_event evs"
    by (auto simp: mark_visited_def dequeue_def)
  show ?thesis
  proof (cases out)
    case Normal
    with assms(1) nv p show ?thesis
      by (simp add: crawl_iter_def Let_def interval_def)
  next
    case Continue
    with assms(1) nv p have "crawl_iter env ps s = s2"
      by (simp add: crawl_iter_def Let_def)
    with Continue p t inner_no_interval [OF a] show ?thesis by simp
  next
    case (Throw e)
    with assms(1) nv p show ?thesis
      by (simp add: crawl_iter_def Let_def interval_def)
  qed
qed

text \<open>The body of the \<^verbatim>\<open>try\<close> block ends with \<^verbatim>\<open>continue\<close> exactly on a binary result with
  status 200 that was saved without error.\<close>

lemma process_url_continue:
  "fst (process_url env ps u s) = Continue \<longleftrightarrow>
     (\<exists>result s1 p.
        request env u ps s = (Inr result, s1) \<and>
        status result = DEFAULT_HTTP_SUCCESS_STATUS_CODES \<and> binary result \<and>
        decodeURIComponent env (removePortFromUrl (page_url env (world s1))) = Inr p \<and>
        fst (savePageContent env (body result) (baseOutputDir ps) p
               (case overrides ps of None \<Rightarrow> False | Some b \<Rightarrow> b)
               (emit (EvSavePage (body result) p) s1)) = Inr ())"
  by (auto simp: process_url_def Let_def split: prod.splits sum.splits if_splits)

text \<open>
  Claim C2, on the small site: the pacing delay follows the first and the third URL, but
  after the image (a binary result with status 200) the next URL is dequeued at once:
  the \<^verbatim>\<open>continue\<close> of the binary case leaves the loop body before \<^verbatim>\<open>interval\<close>
  (\<open>turn_paces_unless_continue\<close> and \<open>process_url_continue\<close> give the general rule).
\<close>

theorem C2_binary_result_skips_interval:
  "trace (crawl_turns (demo_env site1 []) demo_params 3 (initial_state demo_params w0)) =
       [EvDequeue ''http://h:80/'', EvVisit ''http://h:80/'', EvRequest ''http://h:80/'',
        EvGoto ''http://h:80/'', EvSavePage (CBuffer [1]) ''http://h/'', EvMkdir ''out/h'',
        EvWrite ''out/h/index'' [1], EvExtract ''<a href='a.png'><a href='b'><a href='b'>'',
        EvEnqueue ''http://h:80/a.png'', EvEnqueue ''http://h:80/b'', EvEnqueue ''http://h:80/b'',
        EvInterval,
        EvDequeue ''http://h:80/a.png'', EvVisit ''http://h:80/a.png'', EvRequest ''http://h:80/a.png'',
        EvGoto ''http://h:80/a.png'', EvFetch ''http://h:80/a.png'',
        EvSavePage (CBuffer [2, 3]) ''http://h/a.png'', EvMkdir ''out/h'',
        EvWrite ''out/h/a.png'' [2, 3],
        EvDequeue ''http://h:80/b'', EvVisit ''http://h:80/b'', EvRequest ''http://h:80/b'',
        EvGoto ''http://h:80/b'', EvSavePage (CBuffer []) ''http://h/b'', EvMkdir ''out/h'',
        EvWrite ''out/h/b'' [], EvExtract [], EvInterval]"
  by code_simp

text \<open>
  Claim C5, on two pages served as \<^verbatim>\<open>text/html\<close>: the first \<^verbatim>\<open>request\<close> leaves
  \<^verbatim>\<open>HTML_CONTENT_TYPE_REGEX.lastIndex\<close> at 9, so the \<^verbatim>\<open>test\<close> of the second starts at the end
  of \<^verbatim>\<open>text/html\<close> and fails: the second page is fetched again as a raw resource and
  marked binary, and its link is never extracted.
\<close>

theorem C5_html_page_marked_binary:
  "site2 ''http://h:80/'' = Some (page ''text/html'' ''<a href='b'>'' [1]) \<and>
   site2 ''http://h:80/b'' = Some (page ''text/html'' ''<a href='c'>'' [4]) \<and>
   map_sum id binary (fst (request (demo_env site2 []) ''http://h:80/'' demo_params (initial_state demo_params w0)))
     = Inr False \<and>
   map_sum id binary
     (fst (request (demo_env site2 []) ''http://h:80/b'' demo_params
        (snd (request (demo_env site2 []) ''http://h:80/'' demo_params (initial_state demo_params w0)))))
     = Inr True \<and>
   trace (crawl_turns (demo_env site2 []) demo_params 2 (initial_state demo_params w0)) =
       [EvDequeue ''http://h:80/'', EvVisit ''http://h:80/'', EvRequest ''http://h:80/'',
        EvGoto ''http://h:80/'', EvSavePage (CBuffer [1]) ''http://h/'', EvMkdir ''out/h'',
        EvWrite ''out/h/index'' [1], EvExtract ''<a href='b'>'', EvEnqueue ''http://h:80/b'',
        EvInterval,
        EvDequeue ''http://h:80/b'', EvVisit ''http://h:80/b'', EvRequest ''http://h:80/b'',
        EvGoto ''http://h:80/b'', EvFetch ''http://h:80/b'',
        EvSavePage (CBuffer [4]) ''http://h/b'', EvMkdir ''out/h'', EvWrite ''out/h/b'' [4]] \<and>
   queue (crawl_turns (demo_env site2 []) demo_params 2 (initial_state demo_params w0)) = []"
proof -
  have a: "site2 ''http://h:80/'' = Some (page ''text/html'' ''<a href='b'>'' [1])"
    by (simp add: site2_def)
  have b: "site2 ''http://h:80/b'' = Some (page ''text/html'' ''<a href='c'>'' [4])"
    by (simp add: site2_def)
  have c: "map_sum id binary (fst (request (demo_env site2 []) ''http://h:80/'' demo_params (initial_state demo_params w0)))
     = Inr False"
    by code_simp
  have d: "map_sum id binary
     (fst (request (demo_env site2 []) ''http://h:80/b'' demo_params
        (snd (request (demo_env site2 []) ''http://h:80/'' demo_params (initial_state demo_params w0)))))
     = Inr True"
    by code_simp
  have e: "trace (crawl_turns (demo_env site2 []) demo_params 2 (initial_state demo_params w0)) =
       [EvDequeue ''http://h:80/'', EvVisit ''http://h:80/'', EvRequest ''http://h:80/'',
        EvGoto ''http://h:80/'', EvSavePage (CBuffer [1]) ''http://h/'', EvMkdir ''out/h'',
        EvWrite ''out/h/index'' [1], EvExtract ''<a href='b'>'', EvEnqueue ''http://h:80/b'',
        EvInterval,
        EvDequeue ''http://h:80/b'', EvVisit ''http://h:80/b'', EvRequest ''http://h:80/b'',
        EvGoto ''http://h:80/b'', EvFetch ''http://h:80/b'',
        EvSavePage (CBuffer [4]) ''http://h/b'', EvMkdir ''out/h'', EvWrite ''out/h/b'' [4]]"
    by code_simp
  have f: "queue (crawl_turns (demo_env site2 []) demo_params 2 (initial_state demo_params w0)) = []"
    by code_simp
  from a b c d e f show ?thesis by blast
qed

section \<open>The domain filter\<close>

lemma includes_str_iff: "includes_str h b \<longleftrightarrow> (\<exists>pre post. h = pre @ b @ post)"
proof (induction h)
  case Nil
  then show ?case by auto
next
  case (Cons c cs)
  show ?case
  proof
    assume "includes_str (c # cs) b"
    then consider "prefix b (c # cs)" | "includes_str cs b" by auto
    then show "\<exists>pre post. c # cs = pre @ b @ post"
    proof cases
      case 1
      then obtain post where "c # cs = b @ post" by (auto simp: prefix_def)
      then have "c # cs = [] @ b @ post" by simp
      then show ?thesis by blast
    next
      case 2
      with Cons obtain pre post where "cs = pre @ b @ post" by blast
      then have "c # cs = (c # pre) @ b @ post" by simp
      then show ?thesis by blast
    qed
  next
    assume "\<exists>pre post. c # cs = pre @ b @ post"
    then obtain pre post where e: "c # cs = pre @ b @ post" by blast
    show "includes_str (c # cs) b"
    proof (cases pre)
      case Nil
      with e have "prefix b (c # cs)" by (simp add: prefix_def)
      then show ?thesis by simp
    next
      case (Cons d ds)
      with e have "cs = ds @ b @ post" by simp
      with Cons.IH have "includes_str cs b" by blast
      then show ?thesis by simp
    qed
  qed
qed

lemma greedy_sound:
  "greedy p lo hi k s = Some x \<Longrightarrow> \<exists>v. suffix v s \<and> k v = Some x"
proof (induction s arbitrary: lo hi x)
  case Nil
  then show ?case by (auto split: if_splits)
next
  case (Cons c cs)
  show ?case
  proof (cases "greedy p (lo - 1) (map_option (\<lambda>h. h - 1) hi) k cs")
    case None
    with Cons.prems have "k (c # cs) = Some x" by (auto split: if_splits)
    then show ?thesis by blast
  next
    case (Some r)
    from Cons.IH [OF Some] obtain v where v: "suffix v cs" "k v = Some r" by blast
    show ?thesis
    proof (cases "hi \<noteq> Some 0 \<and> p c")
      case True
      with Cons.prems Some have "r = x" by simp
      with v show ?thesis by (auto simp: suffix_Cons)
    next
      case False
      with Cons.prems have "k (c # cs) = Some x" by (auto split: if_splits)
      then show ?thesis by blast
    qed
  qed
qed

lemma liti_sound:
  "rx_m (liti ls us) k v = Some x \<Longrightarrow>
     \<exists>m w. v = m @ w \<and> list_all2 (\<lambda>d (l, u). d = l \<or> d = u) m (zip ls us) \<and> k w = Some x"
proof (induction ls us arbitrary: v rule: liti.induct)
  case (1 l ls u us)
  from "1.prems" obtain c cs where v: "v = c # cs" and c: "c = l \<or> c = u"
    and r: "rx_m (liti ls us) k cs = Some x"
    by (auto split: list.splits if_splits)
  from "1.IH" [OF r] obtain m w where "cs = m @ w"
    "list_all2 (\<lambda>d (l, u). d = l \<or> d = u) m (zip ls us)" "k w = Some x" by blast
  with v c have "v = (c # m) @ w \<and>
     list_all2 (\<lambda>d (l, u). d = l \<or> d = u) (c # m) (zip (l # ls) (u # us)) \<and> k w = Some x"
    by simp
  then show ?case by blast
qed simp_all

lemma two_case_lower:
  "list_all2 (\<lambda>d (l, u). d = l \<or> d = u) m lus \<Longrightarrow>
   \<forall>(l, u) \<in> set lus. lower l = l \<and> lower u = l \<Longrightarrow> map lower m = map fst lus"
  by (induction m lus rule: list_all2_induct) auto

lemma find_span_sound:
  "find_span r s = Some (p, v) \<Longrightarrow> \<exists>t. suffix t s \<and> rx_m r Some t = Some v"
proof (induction s arbitrary: p)
  case Nil
  then show ?case by auto
next
  case (Cons c cs)
  show ?case
  proof (cases "rx_m r Some (c # cs)")
    case None
    with Cons.prems obtain p1 where "find_span r cs = Some (p1, v)" by auto
    from Cons.IH [OF this] show ?thesis by (auto simp: suffix_Cons)
  next
    case (Some a)
    with Cons.prems have "a = v" by simp
    with Some show ?thesis by auto
  qed
qed

lemma blank_pairs_lower:
  "\<forall>(l, u) \<in> set (zip ''/about:blank'' ''/ABOUT:BLANK''). lower l = l \<and> lower u = l"
  by (simp add: lower_def)

text \<open>When the test on \<^verbatim>\<open>IGNORE_URL_REGEX\<close> answers true, the string ends in \<^verbatim>\<open>/about:blank\<close>,
  in some letter case.\<close>

lemma ignore_test_sound:
  assumes "fst (rx_test_g IGNORE_URL_REGEX li s)"
  shows "ends_with_blank s"
proof -
  from assms obtain p v where li: "li \<le> length s" and f: "find_span IGNORE_URL_REGEX (drop li s) = Some (p, v)"
    by (auto simp: rx_test_g_def split: if_splits option.splits)
  from find_span_sound [OF f] obtain t where t: "suffix t (drop li s)"
    and m: "rx_m IGNORE_URL_REGEX Some t = Some v" by blast
  from m have "greedy dot 1 None (rx_m (Seq (liti ''/about:blank'' ''/ABOUT:BLANK'') Eol) Some) t = Some v"
    by (simp only: IGNORE_URL_REGEX_def rx_m.simps)
  from greedy_sound [OF this] obtain t2 where t2: "suffix t2 t"
    and l0: "rx_m (Seq (liti ''/about:blank'' ''/ABOUT:BLANK'') Eol) Some t2 = Some v" by blast
  from l0 have l: "rx_m (liti ''/about:blank'' ''/ABOUT:BLANK'') (rx_m Eol Some) t2 = Some v"
    by (simp only: rx_m.simps)
  from liti_sound [OF l] obtain m2 w where e: "t2 = m2 @ w"
    and a: "list_all2 (\<lambda>d (l, u). d = l \<or> d = u) m2 (zip ''/about:blank'' ''/ABOUT:BLANK'')"
    and w: "rx_m Eol Some w = Some v" by blast
  from w have "w = []" by (auto split: if_splits)
  with e have e2: "t2 = m2" by simp
  from two_case_lower [OF a blank_pairs_lower]
  have "map lower m2 = ''/about:blank''" by simp
  moreover have "suffix t2 s"
    using t2 t suffix_drop [of li s] by (meson suffix_order.trans)
  ultimately show ?thesis
    using e2 by (auto simp: ends_with_blank_def suffix_def)
qed

lemma filter_ignore_keeps:
  "filter (\<lambda>c. \<not> ends_with_blank c) (fst (filter_ignore li cs)) = filter (\<lambda>c. \<not> ends_with_blank c) cs"
proof (induction cs arbitrary: li)
  case Nil
  then show ?case by simp
next
  case (Cons c cs)
  obtain m li1 where t: "rx_test_g IGNORE_URL_REGEX li c = (m, li1)"
    by (cases "rx_test_g IGNORE_URL_REGEX li c")
  obtain rest li2 where r: "filter_ignore li1 cs = (rest, li2)"
    by (cases "filter_ignore li1 cs")
  from Cons.IH [of li1] r
  have ih: "filter (\<lambda>c. \<not> ends_with_blank c) rest = filter (\<lambda>c. \<not> ends_with_blank c) cs" by simp
  show ?case
  proof (cases m)
    case True
    with t have "ends_with_blank c" using ignore_test_sound [of li c] by simp
    with t r True ih show ?thesis by simp
  next
    case False
    with t r ih show ?thesis by simp
  qed
qed

lemma filter_ignore_subset: "set (fst (filter_ignore li cs)) \<subseteq> set cs"
proof (induction cs arbitrary: li)
  case Nil
  then show ?case by simp
next
  case (Cons c cs)
  obtain m li1 where t: "rx_test_g IGNORE_URL_REGEX li c = (m, li1)"
    by (cases "rx_test_g IGNORE_URL_REGEX li c")
  obtain rest li2 where r: "filter_ignore li1 cs = (rest, li2)"
    by (cases "filter_ignore li1 cs")
  from Cons.IH [of li1] r have "set rest \<subseteq> set cs" by simp
  with t r show ?case by auto
qed

lemma same_domain_iff:
  "same_domain env ps c \<longleftrightarrow>
     (\<exists>h. url_hostname env c = Some h \<and> (\<exists>pre post. h = pre @ domain_base ps @ post))"
  by (auto simp: same_domain_def includes_str_iff split: option.splits)

lemma greedy_complete:
  "list_all p a \<Longrightarrow> lo \<le> length a \<Longrightarrow> k b \<noteq> None \<Longrightarrow> greedy p lo None k (a @ b) \<noteq> None"
proof (induction a arbitrary: lo)
  case Nil
  then show ?case by (cases b) (auto split: option.splits)
next
  case (Cons x xs)
  from Cons.prems have "lo - 1 \<le> length xs" by simp
  from Cons.IH [OF _ this Cons.prems(3)] Cons.prems(1)
  have "greedy p (lo - 1) None k (xs @ b) \<noteq> None" by simp
  with Cons.prems(1) show ?case by (auto split: option.splits)
qed

lemma find_span_first: "rx_m r Some s \<noteq> None \<Longrightarrow> find_span r s \<noteq> None"
  by (cases s) auto

text \<open>A fresh \<^verbatim>\<open>IGNORE_URL_REGEX\<close> answers true on a one-line string that ends in
  \<^verbatim>\<open>/about:blank\<close> after at least one character.\<close>

lemma ignore_test_fires:
  assumes "pre \<noteq> []" and "list_all dot pre"
  shows "fst (rx_test_g IGNORE_URL_REGEX 0 (pre @ ''/about:blank''))"
proof -
  have k: "rx_m (Seq (liti ''/about:blank'' ''/ABOUT:BLANK'') Eol) Some ''/about:blank'' \<noteq> None"
    by simp
  from assms(1) have "1 \<le> length pre" by (cases pre) auto
  from greedy_complete [where k = "rx_m (Seq (liti ''/about:blank'' ''/ABOUT:BLANK'') Eol) Some"
      and b = "''/about:blank''", OF assms(2) this k]
  have "rx_m IGNORE_URL_REGEX Some (pre @ ''/about:blank'') \<noteq> None"
    by (simp only: IGNORE_URL_REGEX_def rx_m.simps simp_thms)
  from find_span_first [OF this] show ?thesis
    by (auto simp: rx_test_g_def split: option.splits)
qed

text \<open>
  Claim C9, as amended. The candidates are the links after trimming and canonicalizing;
  \<^verbatim>\<open>filterSameDomainLinks\<close> first drops the candidates on which the test of
  \<^verbatim>\<open>IGNORE_URL_REGEX\<close> answers true, then keeps those whose hostname contains the base
  domain. Whatever the state of that regular expression: every admitted URL is a
  candidate whose host parses and whose hostname contains the base domain as a
  substring; a candidate that does not end in \<^verbatim>\<open>/about:blank\<close> is admitted exactly when its
  host parses and its hostname contains the base domain; a URL whose host does not parse
  is never admitted; and on the candidates that do not end in \<^verbatim>\<open>/about:blank\<close> the result
  is the domain filter, in order and with repetitions. A single candidate made of a
  non-empty one-line prefix and \<^verbatim>\<open>/about:blank\<close>, tested by a fresh
  \<^verbatim>\<open>IGNORE_URL_REGEX\<close>, is rejected whatever its hostname.
\<close>

theorem C9_domain_filter:
  "(let cands = map (canonical_link env cur) (map trim links);
        out = fst (filterSameDomainLinks env cur links ps li)
    in (\<forall>c \<in> set out. c \<in> set cands \<and>
           (\<exists>h. url_hostname env c = Some h \<and> (\<exists>pre post. h = pre @ domain_base ps @ post))) \<and>
       (\<forall>c \<in> set cands. \<not> ends_with_blank c \<longrightarrow>
           (c \<in> set out \<longleftrightarrow>
              (\<exists>h. url_hostname env c = Some h \<and> (\<exists>pre post. h = pre @ domain_base ps @ post)))) \<and>
       (\<forall>c. url_hostname env c = None \<longrightarrow> c \<notin> set out) \<and>
       filter (\<lambda>c. \<not> ends_with_blank c) out =
         filter (same_domain env ps) (filter (\<lambda>c. \<not> ends_with_blank c) cands) \<and>
       (\<forall>l pre. links = [l] \<and> li = 0 \<and> canonical_link env cur (trim l) = pre @ ''/about:blank'' \<and>
                pre \<noteq> [] \<and> list_all dot pre \<longrightarrow> out = []))"
proof -
  define cands where "cands = map (canonical_link env cur) (map trim links)"
  define kept where "kept = fst (filter_ignore li cands)"
  define out where "out = fst (filterSameDomainLinks env cur links ps li)"
  have out: "out = filter (same_domain env ps) kept"
    unfolding out_def kept_def cands_def
    by (simp add: filterSameDomainLinks_def Let_def split: prod.splits)
  have sub: "set kept \<subseteq> set cands"
    unfolding kept_def by (rule filter_ignore_subset)
  have keep: "filter (\<lambda>c. \<not> ends_with_blank c) kept = filter (\<lambda>c. \<not> ends_with_blank c) cands"
    unfolding kept_def by (rule filter_ignore_keeps)
  have a: "\<forall>c \<in> set out. c \<in> set cands \<and>
           (\<exists>h. url_hostname env c = Some h \<and> (\<exists>pre post. h = pre @ domain_base ps @ post))"
    using out sub by (auto simp: same_domain_iff)
  have mem: "c \<in> set kept \<longleftrightarrow> c \<in> set cands" if "\<not> ends_with_blank c" for c
  proof -
    have "c \<in> set (filter (\<lambda>c. \<not> ends_with_blank c) kept) \<longleftrightarrow>
          c \<in> set (filter (\<lambda>c. \<not> ends_with_blank c) cands)"
      by (simp only: keep)
    with that show ?thesis by simp
  qed
  have b: "\<forall>c \<in> set cands. \<not> ends_with_blank c \<longrightarrow>
           (c \<in> set out \<longleftrightarrow>
              (\<exists>h. url_hostname env c = Some h \<and> (\<exists>pre post. h = pre @ domain_base ps @ post)))"
    using out mem by (auto simp: same_domain_iff)
  have c: "\<forall>c. url_hostname env c = None \<longrightarrow> c \<notin> set out"
    using out by (auto simp: same_domain_def)
  have d: "filter (\<lambda>c. \<not> ends_with_blank c) out =
         filter (same_domain env ps) (filter (\<lambda>c. \<not> ends_with_blank c) cands)"
  proof -
    have "filter (\<lambda>c. \<not> ends_with_blank c) out =
          filter (same_domain env ps) (filter (\<lambda>c. \<not> ends_with_blank c) kept)"
      unfolding out by (simp add: conj_commute)
    with keep show ?thesis by simp
  qed
  have e: "out = []"
    if h: "links = [l] \<and> li = 0 \<and> canonical_link env cur (trim l) = pre @ ''/about:blank'' \<and>
           pre \<noteq> [] \<and> list_all dot pre" for l pre
  proof -
    obtain m li1 where t: "rx_test_g IGNORE_URL_REGEX 0 (pre @ ''/about:blank'') = (m, li1)"
      by (cases "rx_test_g IGNORE_URL_REGEX 0 (pre @ ''/about:blank'')")
    from h have "fst (rx_test_g IGNORE_URL_REGEX 0 (pre @ ''/about:blank''))"
      using ignore_test_fires [of pre] by blast
    with t have m: "m" by simp
    from h have c: "cands = [pre @ ''/about:blank'']"
      unfolding cands_def by simp
    have "filter_ignore 0 [pre @ ''/about:blank''] = ([], li1)"
      using t m by (simp only: filter_ignore.simps Let_def prod.case if_True)
    with h c have "kept = []"
      unfolding kept_def by simp
    with out show ?thesis by simp
  qed
  have e': "\<forall>l pre. links = [l] \<and> li = 0 \<and> canonical_link env cur (trim l) = pre @ ''/about:blank'' \<and>
                pre \<noteq> [] \<and> list_all dot pre \<longrightarrow> out = []"
    by (intro allI impI, erule e)
  show ?thesis
    unfolding cands_def [symmetric] out_def [symmetric] Let_def
    using a b c d e' by (intro conjI) assumption+
qed

text \<open>
  Claim C9 as stated fails on the blank-page link: on the page \<^verbatim>\<open>http://base-domain.example/\<close>
  the link \<^verbatim>\<open>about:blank\<close> becomes a candidate whose hostname is the base domain, and the
  filter rejects it.
\<close>

theorem C9_blank_page_rejected_counterexample:
  "canonical_link (demo_env site1 []) ''http://base-domain.example/'' (trim ''about:blank'')
     = ''http://base-domain.example/about:blank'' \<and>
   url_hostname (demo_env site1 []) ''http://base-domain.example/about:blank'' = Some ''base-domain.example'' \<and>
   includes_str ''base-domain.example'' (domain_base domain_params) \<and>
   fst (filterSameDomainLinks (demo_env site1 []) ''http://base-domain.example/'' [''about:blank''] domain_params 0) = []"
proof -
  have a: "canonical_link (demo_env site1 []) ''http://base-domain.example/'' (trim ''about:blank'')
     = ''http://base-domain.example/about:blank''"
    by code_simp
  have b: "url_hostname (demo_env site1 []) ''http://base-domain.example/about:blank'' = Some ''base-domain.example''"
    by code_simp
  have c: "includes_str ''base-domain.example'' (domain_base domain_params)"
    by code_simp
  have d: "fst (filterSameDomainLinks (demo_env site1 []) ''http://base-domain.example/'' [''about:blank''] domain_params 0) = []"
    by code_simp
  from a b c d show ?thesis by blast
qed

text \<open>
  The domain-isolation example: of links to \<^verbatim>\<open>base-domain.example\<close>, \<^verbatim>\<open>other.example\<close> and
  \<^verbatim>\<open>sub.base-domain.example\<close> the subdomain is admitted and the other host is not; a
  candidate without a scheme, whose host does not parse, is rejected; so is the
  blank-page link on the page \<^verbatim>\<open>http://h/\<close>.
\<close>

theorem C9_domain_filter_witness:
  "map (canonical_link (demo_env site1 []) ''http://base-domain.example/'')
     (map trim [''http://base-domain.example/a'', ''http://other.example/b'', ''http://sub.base-domain.example/c''])
     = [''http://base-domain.example/a'', ''http://other.example/b'', ''http://sub.base-domain.example/c''] \<and>
   \<not> ends_with_blank ''http://sub.base-domain.example/c'' \<and>
   \<not> ends_with_blank ''http://other.example/b'' \<and>
   url_hostname (demo_env site1 []) ''http://sub.base-domain.example/c'' = Some ''sub.base-domain.example'' \<and>
   ''sub.base-domain.example'' = ''sub.'' @ domain_base domain_params @ [] \<and>
   ''http://sub.base-domain.example/c''
     \<in> set (fst (filterSameDomainLinks (demo_env site1 []) ''http://base-domain.example/''
           [''http://base-domain.example/a'', ''http://other.example/b'', ''http://sub.base-domain.example/c'']
           domain_params 0)) \<and>
   url_hostname (demo_env site1 []) ''http://other.example/b'' = Some ''other.example'' \<and>
   ''http://other.example/b''
     \<notin> set (fst (filterSameDomainLinks (demo_env site1 []) ''http://base-domain.example/''
           [''http://base-domain.example/a'', ''http://other.example/b'', ''http://sub.base-domain.example/c'']
           domain_params 0)) \<and>
   url_hostname (demo_env site1 []) ''/x'' = None \<and>
   ''/x'' \<notin> set (fst (filterSameDomainLinks (demo_env site1 []) [] [''x''] domain_params 0)) \<and>
   canonical_link (demo_env site1 []) ''http://h/'' (trim ''about:blank'') = ''http://h'' @ ''/about:blank'' \<and>
   list_all dot ''http://h'' \<and>
   fst (filterSameDomainLinks (demo_env site1 []) ''http://h/'' [''about:blank''] demo_params 0) = []"
proof -
  let ?E = "demo_env site1 []"
  let ?cur = "''http://base-domain.example/''"
  let ?links = "[''http://base-domain.example/a'', ''http://other.example/b'', ''http://sub.base-domain.example/c'']"
  let ?out = "fst (filterSameDomainLinks ?E ?cur ?links domain_params 0)"
  have cands: "map (canonical_link ?E ?cur) (map trim ?links) = ?links"
    by code_simp
  have nb1: "\<not> ends_with_blank ''http://sub.base-domain.example/c''"
    by code_simp
  have nb2: "\<not> ends_with_blank ''http://other.example/b''"
    by code_simp
  have h1: "url_hostname ?E ''http://sub.base-domain.example/c'' = Some ''sub.base-domain.example''"
    by code_simp
  have h2: "url_hostname ?E ''http://other.example/b'' = Some ''other.example''"
    by code_simp
  have e1: "''sub.base-domain.example'' = ''sub.'' @ domain_base domain_params @ []"
    by (simp add: domain_params_def)
  have n2: "\<not> includes_str ''other.example'' (domain_base domain_params)"
    by code_simp
  then have n2': "\<not> (\<exists>pre post. ''other.example'' = pre @ domain_base domain_params @ post)"
    using includes_str_iff [of "''other.example''" "domain_base domain_params"] by blast
  note t = C9_domain_filter [of ?E ?cur ?links domain_params 0, unfolded Let_def cands]
  from t [THEN conjunct2, THEN conjunct1]
  have iff: "\<forall>c \<in> set ?links. \<not> ends_with_blank c \<longrightarrow>
       (c \<in> set ?out \<longleftrightarrow>
          (\<exists>h. url_hostname ?E c = Some h \<and> (\<exists>pre post. h = pre @ domain_base domain_params @ post)))" .
  have m1: "''http://sub.base-domain.example/c'' \<in> set ?links" by simp
  have m2: "''http://other.example/b'' \<in> set ?links" by simp
  from iff m1 nb1 h1 e1 have r1: "''http://sub.base-domain.example/c'' \<in> set ?out"
    by blast
  from iff m2 nb2 h2 n2' have r2: "''http://other.example/b'' \<notin> set ?out"
    by auto
  have h3: "url_hostname ?E ''/x'' = None"
    by code_simp
  note r3 = C9_domain_filter [of ?E "[]" "[''x'']" domain_params 0, unfolded Let_def,
      THEN conjunct2, THEN conjunct2, THEN conjunct1, rule_format, OF h3]
  have b1: "canonical_link ?E ''http://h/'' (trim ''about:blank'') = ''http://h'' @ ''/about:blank''"
    by code_simp
  have b2: "list_all dot ''http://h''"
    by code_simp
  have b3: "''http://h'' \<noteq> []" by simp
  have prem: "[''about:blank''] = [''about:blank''] \<and> (0::nat) = 0 \<and>
      canonical_link ?E ''http://h/'' (trim ''about:blank'') = ''http://h'' @ ''/about:blank'' \<and>
      ''http://h'' \<noteq> [] \<and> list_all dot ''http://h''"
    by (intro conjI) (rule refl b1 b2 b3)+
  note r4 = C9_domain_filter [of ?E "''http://h/''" "[''about:blank'']" demo_params 0, unfolded Let_def,
      THEN conjunct2, THEN conjunct2, THEN conjunct2, THEN conjunct2, rule_format, OF prem]
  from cands nb1 nb2 h1 e1 r1 h2 r2 h3 r3 b1 b2 r4 show ?thesis
    by (intro conjI) assumption+
qed

section \<open>Separator collapsing\<close>

lemma greedy_all:
  "greedy P lo None Some s = (if lo \<le> length (takeWhile P s) then Some (dropWhile P s) else None)"
proof (induction s arbitrary: lo)
  case Nil
  then show ?case by simp
next
  case (Cons c cs)
  show ?case
  proof (cases "P c")
    case True
    with Cons [of "lo - 1"] show ?thesis by auto
  next
    case False
    then show ?thesis by simp
  qed
qed

lemma replace_all_collapse:
  "replace_all (Rep 2 None (\<lambda>c. c = CHR ''/'')) ''/'' s = collapse s"
proof (induction s rule: length_induct)
  case (1 s)
  show ?case
  proof (cases s)
    case Nil
    then show ?thesis by (simp add: greedy_all)
  next
    case (Cons c cs)
    show ?thesis
    proof (cases "c = CHR ''/''")
      case False
      with Cons 1 show ?thesis by (simp add: greedy_all)
    next
      case slash: True
      show ?thesis
      proof (cases "cs \<noteq> [] \<and> hd cs = CHR ''/''")
        case True
        then obtain ds where ds: "cs = CHR ''/'' # ds" by (cases cs) auto
        have m: "rx_m (Rep 2 None (\<lambda>c. c = CHR ''/'')) Some s = Some (dropWhile (\<lambda>c. c = CHR ''/'') ds)"
          using Cons slash ds by (simp add: greedy_all)
        have len: "length (dropWhile (\<lambda>c. c = CHR ''/'') ds) < length s"
          using Cons ds length_dropWhile_le [of "\<lambda>c. c = CHR ''/''" ds] by simp
        from 1 len have "replace_all (Rep 2 None (\<lambda>c. c = CHR ''/'')) ''/'' (dropWhile (\<lambda>c. c = CHR ''/'') ds)
            = collapse (dropWhile (\<lambda>c. c = CHR ''/'') ds)" by blast
        with m len Cons slash ds show ?thesis by simp
      next
        case False
        then have tw: "takeWhile (\<lambda>c. c = CHR ''/'') cs = []" and dw: "dropWhile (\<lambda>c. c = CHR ''/'') cs = cs"
          by (cases cs; simp)+
        have m: "rx_m (Rep 2 None (\<lambda>c. c = CHR ''/'')) Some s = None"
          using Cons slash tw by (simp add: greedy_all)
        from 1 Cons have "replace_all (Rep 2 None (\<lambda>c. c = CHR ''/'')) ''/'' cs = collapse cs" by simp
        with m Cons slash dw show ?thesis by simp
      qed
    qed
  qed
qed

lemma collapse_head:
  "s = [] \<or> hd s \<noteq> CHR ''/'' \<Longrightarrow> collapse s = [] \<or> hd (collapse s) \<noteq> CHR ''/''"
  by (cases s) auto

lemma dropWhile_head: "dropWhile P s = [] \<or> \<not> P (hd (dropWhile P s))"
  by (induction s) auto

lemma collapse_no_double: "\<not> includes_str (collapse s) ''//''"
proof (induction s rule: collapse.induct)
  case 1
  then show ?case by simp
next
  case (2 c cs)
  show ?case
  proof (cases "c = CHR ''/''")
    case True
    let ?r = "dropWhile (\<lambda>d. d = CHR ''/'') cs"
    from dropWhile_head [of "\<lambda>d. d = CHR ''/''" cs]
    have "?r = [] \<or> hd ?r \<noteq> CHR ''/''" by simp
    from collapse_head [OF this] have h: "collapse ?r = [] \<or> hd (collapse ?r) \<noteq> CHR ''/''" .
    then have "\<not> prefix ''//'' (CHR ''/'' # collapse ?r)"
      by (cases "collapse ?r") auto
    with 2 True show ?thesis by simp
  next
    case False
    with 2 show ?thesis by simp
  qed
qed

lemma split_acc_none:
  "\<not> includes_str s sep \<Longrightarrow> split_acc sep acc s = [rev acc @ s]"
proof (induction s arbitrary: acc)
  case Nil
  then show ?case by simp
next
  case (Cons c cs)
  then show ?case by simp
qed

lemma prefix_short: "prefix p (u @ v) \<Longrightarrow> length p \<le> length u \<Longrightarrow> prefix p u"
  by (auto simp: prefix_append)

lemma split_acc_first:
  "\<not> includes_str (a @ '':/'') ''://'' \<Longrightarrow>
     split_acc ''://'' acc (a @ ''://'' @ b) = (rev acc @ a) # split_acc ''://'' [] b"
proof (induction a arbitrary: acc)
  case Nil
  then show ?case by simp
next
  case (Cons x xs)
  from Cons.prems have np: "\<not> prefix ''://'' (x # xs @ '':/'')"
    and ni: "\<not> includes_str (xs @ '':/'') ''://''" by auto
  have "\<not> prefix ''://'' ((x # xs @ '':/'') @ (''/'' @ b))"
    using np prefix_short [of "''://''" "x # xs @ '':/''" "''/'' @ b"] by auto
  then have "\<not> prefix ''://'' (x # xs @ ''://'' @ b)" by simp
  with Cons.IH [OF ni, of "x # acc"] show ?case by simp
qed

text \<open>On a URL with one scheme separator \<^verbatim>\<open>removeDoubleBars\<close> keeps the scheme and the
  separator and collapses every run of slashes after it.\<close>

lemma removeDoubleBars_single:
  assumes "\<not> includes_str (a @ '':/'') ''://''" and "\<not> includes_str b ''://''"
  shows "removeDoubleBars (a @ ''://'' @ b) = a @ ''://'' @ collapse b"
    and "\<not> includes_str (collapse b) ''//''"
proof -
  have "split_str ''://'' (a @ ''://'' @ b) = [a, b]"
    using split_acc_first [OF assms(1), of "[]" b] split_acc_none [OF assms(2), of "[]"]
    by (simp add: split_str_def)
  then show "removeDoubleBars (a @ ''://'' @ b) = a @ ''://'' @ collapse b"
    by (simp add: removeDoubleBars_def replace_all_collapse)
  show "\<not> includes_str (collapse b) ''//''"
    by (rule collapse_no_double)
qed

text \<open>The example of the separator-collapsing property, for any \<^verbatim>\<open>encodeurl\<close>.\<close>

lemma canonical_link_example:
  "canonical_link env ''http://host//a//b'' ''//c'' = encodeUrl env ''http://host/a/b/c''"
proof -
  have a: "\<not> has_protocol ''//c''" by code_simp
  have b: "removeDoubleBars (unionUrl (removeExtensionOrFragment ''http://host//a//b'') ''//c'')
             = ''http://host/a/b/c''" by code_simp
  from a b show ?thesis by (simp only: canonical_link_def if_False)
qed

text \<open>
  Claim C8, on a relative link that carries a URL in its query: joined to the page
  \<^verbatim>\<open>http://host/a/\<close>, the link \<^verbatim>\<open>/login?next=http://host/home\<close> gives a string with two
  \<^verbatim>\<open>://\<close>; \<^verbatim>\<open>removeDoubleBars\<close> splits it in three parts and returns only the first two, so
  the canonical URL ends at \<^verbatim>\<open>next=http\<close>: the second \<^verbatim>\<open>://\<close> and what follows it are
  dropped, not collapsed.
\<close>

theorem C8_second_scheme_separator_truncates:
  "\<not> has_protocol ''/login?next=http://host/home'' \<and>
   unionUrl (removeExtensionOrFragment ''http://host/a/'') ''/login?next=http://host/home''
     = ''http://host/a//login?next=http://host/home'' \<and>
   split_str ''://'' ''http://host/a//login?next=http://host/home''
     = [''http'', ''host/a//login?next=http'', ''host/home''] \<and>
   removeDoubleBars ''http://host/a//login?next=http://host/home'' = ''http://host/a/login?next=http'' \<and>
   canonical_link (demo_env site1 []) ''http://host/a/'' ''/login?next=http://host/home''
     = ''http://host/a/login?next=http''"
proof -
  have a: "\<not> has_protocol ''/login?next=http://host/home''" by code_simp
  have b: "unionUrl (removeExtensionOrFragment ''http://host/a/'') ''/login?next=http://host/home''
     = ''http://host/a//login?next=http://host/home''" by code_simp
  have c: "split_str ''://'' ''http://host/a//login?next=http://host/home''
     = [''http'', ''host/a//login?next=http'', ''host/home'']" by code_simp
  have d: "removeDoubleBars ''http://host/a//login?next=http://host/home'' = ''http://host/a/login?next=http''"
    by code_simp
  have e: "canonical_link (demo_env site1 []) ''http://host/a/'' ''/login?next=http://host/home''
     = ''http://host/a/login?next=http''" by code_simp
  from a b c d e show ?thesis by blast
qed

section \<open>The older copy of the domain filter\<close>

text \<open>Without the blank-page rule a candidate is admitted exactly when its host parses and
  its hostname contains the base domain.\<close>

lemma filterSameDomainLinks_old_iff:
  "c \<in> set (filterSameDomainLinks_old env cur links ps) \<longleftrightarrow>
     c \<in> set (map (\<lambda>link. if has_protocol link then link
                          else encodeUrl env (removeDoubleBars (unionUrl cur link)))
                (map trim links)) \<and>
     (\<exists>h. url_hostname env c = Some h \<and> (\<exists>pre post. h = pre @ domain_base ps @ post))"
proof -
  have "(case url_hostname env c of None \<Rightarrow> False | Some hostname \<Rightarrow> includes_str hostname (domain_base ps))
        \<longleftrightarrow> (\<exists>h. url_hostname env c = Some h \<and> (\<exists>pre post. h = pre @ domain_base ps @ post))"
    by (cases "url_hostname env c") (simp_all add: includes_str_iff)
  then show ?thesis
    unfolding filterSameDomainLinks_old_def by simp
qed

end
